theory Spec2Isabelle
  imports Main "HOL-Library.Word" "HOL-Library.List_Lexorder" "HOL-Library.Sublist"
    "HOL-Library.AList"
begin

unbundle bit_operations_syntax

section \<open>Byte strings, errors and results\<close>

text \<open>
  A Go \<^verbatim>\<open>[]byte\<close> is a list of 8-bit words. The storage engine orders its keys bytewise
  (\<^verbatim>\<open>bytes.Compare\<close>); this is the lexicographic order on lists of
  \<^verbatim>\<open>HOL-Library.List_Lexorder\<close>, in which a proper prefix sorts before its extensions.
  A \<^verbatim>\<open>uint64\<close> is a 64-bit word.
\<close>

type_synonym byte = "8 word"
type_synonym bytes = "byte list"
type_synonym u64 = "64 word"

text \<open>
  The error values the package returns: its own \<^verbatim>\<open>ErrKeyNotFound\<close>, the consensus
  library's \<^verbatim>\<open>raft.ErrLogNotFound\<close>, the engine's \<^verbatim>\<open>badger.ErrKeyNotFound\<close>, any
  other error of the engine (with a code) and any error of the msgpack codec (with a code).
  A call returns a value, returns an error, or ends in a runtime panic.
\<close>

datatype error =
    ErrKeyNotFound
  | ErrLogNotFound
  | BadgerErrKeyNotFound
  | EngineFailure nat
  | CodecFailure nat

datatype 'a result = Ok 'a | Err error | Panic

section \<open>utils.go\<close>

text \<open>
  \<^verbatim>\<open>binary.BigEndian.Uint64(b)\<close> first reads \<^verbatim>\<open>b[7]\<close>, which panics on a slice shorter
  than 8 bytes, and then combines the first 8 bytes; bytes after the eighth are ignored.
\<close>

definition BigEndian_Uint64 :: "bytes \<Rightarrow> u64" where
  "BigEndian_Uint64 b =
     ucast (b ! 7) OR push_bit 8 (ucast (b ! 6)) OR push_bit 16 (ucast (b ! 5)) OR
     push_bit 24 (ucast (b ! 4)) OR push_bit 32 (ucast (b ! 3)) OR
     push_bit 40 (ucast (b ! 2)) OR push_bit 48 (ucast (b ! 1)) OR
     push_bit 56 (ucast (b ! 0))"

definition bytesToUint64 :: "bytes \<Rightarrow> u64 result" where
  "bytesToUint64 b = (if length b \<le> 7 then Panic else Ok (BigEndian_Uint64 b))"

text \<open>
  \<^verbatim>\<open>uint64ToBytes\<close> makes a buffer of 8 bytes and \<^verbatim>\<open>PutUint64\<close> stores
  \<^verbatim>\<open>byte(u >> 56)\<close>, ..., \<^verbatim>\<open>byte(u)\<close> in it.
\<close>

definition uint64ToBytes :: "u64 \<Rightarrow> bytes" where
  "uint64ToBytes u =
     [ucast (drop_bit 56 u), ucast (drop_bit 48 u), ucast (drop_bit 40 u),
      ucast (drop_bit 32 u), ucast (drop_bit 24 u), ucast (drop_bit 16 u),
      ucast (drop_bit 8 u), ucast u]"

definition addPrefix :: "bytes \<Rightarrow> bytes \<Rightarrow> bytes" where
  "addPrefix pfx key = pfx @ key"

text \<open>Go's \<^verbatim>\<open>copy(dst, src)\<close> overwrites the first \<^verbatim>\<open>min(len(dst), len(src))\<close> bytes.\<close>

definition go_copy :: "bytes \<Rightarrow> bytes \<Rightarrow> bytes" where
  "go_copy dst src = take (length dst) src @ drop (length src) dst"

definition End :: "bytes \<Rightarrow> bytes" where
  "End pfx =
     (let end0 = replicate (length pfx + 1) 0;
          end1 = go_copy end0 pfx
      in end1[length end1 - 1 := 0xFF])"

text \<open>The two bucket names, \<^verbatim>\<open>"logs"\<close> and \<^verbatim>\<open>"conf"\<close>, as bytes.\<close>

definition dbLogs :: bytes where
  "dbLogs = [0x6C, 0x6F, 0x67, 0x73]"

definition dbConf :: bytes where
  "dbConf = [0x63, 0x6F, 0x6E, 0x66]"

section \<open>The log record and the codec\<close>

text \<open>
  \<^verbatim>\<open>raft.Log\<close>, the record of the consensus library. The store reads only its
  \<^verbatim>\<open>Index\<close>; the rest travels through the codec.
\<close>

record raft_log =
  Index :: u64
  Term :: u64
  Type :: byte
  Data :: bytes
  Extensions :: bytes
  AppendedAt :: int

text \<open>
  The msgpack codec is a library outside the repository, so it is a parameter: a codec is
  any pair of an encoder, which takes the \<^verbatim>\<open>TimeNotBuiltin\<close> flag and a record, and a
  decoder; either may fail with an error code. \<^verbatim>\<open>DecodeMsgPack\<close> and
  \<^verbatim>\<open>EncodeMsgPack\<close> are the two wrappers of \<^verbatim>\<open>utils.go\<close>.
\<close>

record msgpack =
  mp_encode :: "bool \<Rightarrow> raft_log \<Rightarrow> nat + bytes"
  mp_decode :: "bytes \<Rightarrow> nat + raft_log"

definition DecodeMsgPack :: "msgpack \<Rightarrow> bytes \<Rightarrow> raft_log result" where
  "DecodeMsgPack c buf =
     (case mp_decode c buf of Inl e \<Rightarrow> Err (CodecFailure e) | Inr out \<Rightarrow> Ok out)"

definition EncodeMsgPack :: "msgpack \<Rightarrow> raft_log \<Rightarrow> bool \<Rightarrow> bytes result" where
  "EncodeMsgPack c in0 useNewTimeFormat =
     (case mp_encode c (\<not> useNewTimeFormat) in0 of
        Inl e \<Rightarrow> Err (CodecFailure e) | Inr buf \<Rightarrow> Ok buf)"

section \<open>The storage engine\<close>

text \<open>
  The engine is outside the repository too. Its committed contents are an association list
  \<open>kv\<close> from keys to values, read through \<open>map_of\<close>. A read-write transaction collects
  its writes in a list of pending operations, which a successful commit applies in order
  and at once; a transaction that is discarded applies nothing. Every call of the engine
  that returns an error in Go can fail here: the functions \<open>get_fails\<close>, \<open>value_fails\<close>,
  \<open>set_fails\<close>, \<open>delete_fails\<close> and \<open>commit_fails\<close> of the handle say when, and with which
  error code. Theorems hold for every choice of them.
\<close>

datatype write_op = Put bytes bytes | Del bytes

record badger_db =
  kv :: "(bytes \<times> bytes) list"
  get_fails :: "bytes \<Rightarrow> nat option"
  value_fails :: "bytes \<Rightarrow> nat option"
  set_fails :: "write_op list \<Rightarrow> bytes \<Rightarrow> bytes \<Rightarrow> nat option"
  delete_fails :: "write_op list \<Rightarrow> bytes \<Rightarrow> nat option"
  commit_fails :: "write_op list \<Rightarrow> nat option"

text \<open>
  \<^verbatim>\<open>txn.Get\<close> returns the item of a key, here the pair of the key and its value, the
  engine's \<^verbatim>\<open>ErrKeyNotFound\<close> when the key is absent, or another error of the engine.
  \<^verbatim>\<open>item.ValueCopy(nil)\<close> returns a copy of the value, or an error; the copy of an empty
  value is the nil slice, which the model writes \<open>[]\<close>.
\<close>

definition txn_Get :: "badger_db \<Rightarrow> bytes \<Rightarrow> (bytes \<times> bytes) result" where
  "txn_Get d key =
     (case get_fails d key of
        Some c \<Rightarrow> Err (EngineFailure c)
      | None \<Rightarrow> (case map_of (kv d) key of
                   None \<Rightarrow> Err BadgerErrKeyNotFound
                 | Some v \<Rightarrow> Ok (key, v)))"

definition item_ValueCopy :: "badger_db \<Rightarrow> bytes \<times> bytes \<Rightarrow> bytes result" where
  "item_ValueCopy d item =
     (case value_fails d (fst item) of
        Some c \<Rightarrow> Err (EngineFailure c)
      | None \<Rightarrow> Ok (snd item))"

definition txn_Set :: "badger_db \<Rightarrow> write_op list \<Rightarrow> bytes \<Rightarrow> bytes \<Rightarrow> write_op list result" where
  "txn_Set d pend k v =
     (case set_fails d pend k v of
        Some c \<Rightarrow> Err (EngineFailure c)
      | None \<Rightarrow> Ok (pend @ [Put k v]))"

definition txn_Delete :: "badger_db \<Rightarrow> write_op list \<Rightarrow> bytes \<Rightarrow> write_op list result" where
  "txn_Delete d pend k =
     (case delete_fails d pend k of
        Some c \<Rightarrow> Err (EngineFailure c)
      | None \<Rightarrow> Ok (pend @ [Del k]))"

fun apply_op :: "write_op \<Rightarrow> (bytes \<times> bytes) list \<Rightarrow> (bytes \<times> bytes) list" where
  "apply_op (Put k v) al = AList.update k v al"
| "apply_op (Del k) al = AList.delete k al"

definition txn_Commit :: "badger_db \<Rightarrow> write_op list \<Rightarrow> badger_db result" where
  "txn_Commit d pend =
     (case commit_fails d pend of
        Some c \<Rightarrow> Err (EngineFailure c)
      | None \<Rightarrow> Ok (d\<lparr>kv := fold apply_op pend (kv d)\<rparr>))"

text \<open>
  An iterator walks the keys of the transaction's snapshot in key order. It is modelled by
  the list of the keys still to visit: \<^verbatim>\<open>Item().Key()\<close> is the head, \<^verbatim>\<open>Next()\<close> the tail,
  and the iterator is valid while the list is not empty. A forward \<^verbatim>\<open>Seek(key)\<close> starts
  at the smallest key that is at least \<open>key\<close>; with \<^verbatim>\<open>Reverse\<close> set the keys are walked
  downwards and \<^verbatim>\<open>Seek(key)\<close> starts at the largest key that is at most \<open>key\<close>.
\<close>

definition iter_keys :: "badger_db \<Rightarrow> bytes list" where
  "iter_keys d = sort (remdups (map fst (kv d)))"

definition Seek :: "bytes list \<Rightarrow> bytes \<Rightarrow> bytes list" where
  "Seek ks key = dropWhile (\<lambda>k. k < key) ks"

definition Seek_Reverse :: "bytes list \<Rightarrow> bytes \<Rightarrow> bytes list" where
  "Seek_Reverse ks key = dropWhile (\<lambda>k. key < k) (rev ks)"

definition ValidForPrefix :: "bytes list \<Rightarrow> bytes \<Rightarrow> bool" where
  "ValidForPrefix it pfx = (case it of [] \<Rightarrow> False | k # _ \<Rightarrow> prefix pfx k)"

section \<open>The store\<close>

record BadgerRaftStore =
  db :: badger_db
  path :: string
  msgpackUseNewTimeFormat :: bool

text \<open>
  \<^verbatim>\<open>FirstIndex\<close> and \<^verbatim>\<open>LastIndex\<close> return from the first round of their loop, so each
  looks at the key the iterator stands on after \<^verbatim>\<open>Seek\<close>. The \<^verbatim>\<open>Rewind\<close> that
  \<^verbatim>\<open>LastIndex\<close> calls before \<^verbatim>\<open>Seek\<close> moves an iterator that \<^verbatim>\<open>Seek\<close> then moves again.
\<close>

definition FirstIndex :: "BadgerRaftStore \<Rightarrow> u64 result" where
  "FirstIndex b =
     (let it = Seek (iter_keys (db b)) dbLogs
      in if ValidForPrefix it dbLogs
         then bytesToUint64 (drop (length dbLogs) (hd it))
         else Ok 0)"

definition LastIndex :: "BadgerRaftStore \<Rightarrow> u64 result" where
  "LastIndex b =
     (let it = Seek_Reverse (iter_keys (db b)) (End dbLogs)
      in if ValidForPrefix it dbLogs
         then bytesToUint64 (drop (length dbLogs) (hd it))
         else Ok 0)"

definition GetLog :: "msgpack \<Rightarrow> BadgerRaftStore \<Rightarrow> u64 \<Rightarrow> raft_log result" where
  "GetLog c b idx =
     (case txn_Get (db b) (addPrefix dbLogs (uint64ToBytes idx)) of
        Err e \<Rightarrow> Err ErrLogNotFound
      | Panic \<Rightarrow> Panic
      | Ok item \<Rightarrow>
          (case item_ValueCopy (db b) item of
             Err e \<Rightarrow> Err ErrLogNotFound
           | Panic \<Rightarrow> Panic
           | Ok val \<Rightarrow> if val = [] then Err ErrLogNotFound else DecodeMsgPack c val))"

text \<open>
  \<^verbatim>\<open>StoreLogs\<close>: the loop over the records fills the pending writes of one transaction
  and returns early, with the transaction discarded, on the first error; \<^verbatim>\<open>Commit\<close> is
  the final \<^verbatim>\<open>return txn.Commit()\<close>.
\<close>

fun StoreLogs_loop ::
  "msgpack \<Rightarrow> BadgerRaftStore \<Rightarrow> write_op list \<Rightarrow> raft_log list \<Rightarrow> write_op list result" where
  "StoreLogs_loop c b pend [] = Ok pend"
| "StoreLogs_loop c b pend (log # logs) =
     (let key = uint64ToBytes (Index log)
      in case EncodeMsgPack c log (msgpackUseNewTimeFormat b) of
           Err e \<Rightarrow> Err e
         | Panic \<Rightarrow> Panic
         | Ok val \<Rightarrow>
             (case txn_Set (db b) pend (addPrefix dbLogs key) val of
                Err e \<Rightarrow> Err e
              | Panic \<Rightarrow> Panic
              | Ok pend' \<Rightarrow> StoreLogs_loop c b pend' logs))"

definition Commit :: "BadgerRaftStore \<Rightarrow> write_op list \<Rightarrow> BadgerRaftStore \<times> unit result" where
  "Commit b pend =
     (case txn_Commit (db b) pend of
        Err e \<Rightarrow> (b, Err e)
      | Panic \<Rightarrow> (b, Panic)
      | Ok d \<Rightarrow> (b\<lparr>db := d\<rparr>, Ok ()))"

definition StoreLogs ::
  "msgpack \<Rightarrow> BadgerRaftStore \<Rightarrow> raft_log list \<Rightarrow> BadgerRaftStore \<times> unit result" where
  "StoreLogs c b logs =
     (case StoreLogs_loop c b [] logs of
        Err e \<Rightarrow> (b, Err e)
      | Panic \<Rightarrow> (b, Panic)
      | Ok pend \<Rightarrow> Commit b pend)"

definition StoreLog ::
  "msgpack \<Rightarrow> BadgerRaftStore \<Rightarrow> raft_log \<Rightarrow> BadgerRaftStore \<times> unit result" where
  "StoreLog c b log = StoreLogs c b [log]"

text \<open>
  \<^verbatim>\<open>DeleteRange\<close>. \<open>DeleteRange_batch\<close> is the inner loop over the iterator, with the
  variables \<^verbatim>\<open>count\<close> and \<^verbatim>\<open>lastKey\<close> and the pending deletions of the transaction;
  \<open>DeleteRange_loop\<close> is the outer loop, with the batch size as a parameter, which
  \<^verbatim>\<open>DeleteRange\<close> sets to 100.
\<close>

fun DeleteRange_batch ::
  "badger_db \<Rightarrow> nat \<Rightarrow> u64 \<Rightarrow> bytes list \<Rightarrow> nat \<Rightarrow> bytes \<Rightarrow> write_op list
   \<Rightarrow> (nat \<times> bytes \<times> write_op list) result" where
  "DeleteRange_batch d batchSize mx [] count lastKey pend = Ok (count, lastKey, pend)"
| "DeleteRange_batch d batchSize mx (k # it) count lastKey pend =
     (if \<not> prefix dbLogs k then Ok (count, lastKey, pend)
      else case bytesToUint64 (drop (length dbLogs) k) of
             Err e \<Rightarrow> Err e
           | Panic \<Rightarrow> Panic
           | Ok i \<Rightarrow>
               if i > mx then Ok (count, k, pend)
               else (case txn_Delete d pend k of
                       Err e \<Rightarrow> Err e
                     | Panic \<Rightarrow> Panic
                     | Ok pend' \<Rightarrow>
                         if count + 1 \<ge> batchSize then Ok (count + 1, k, pend')
                         else DeleteRange_batch d batchSize mx it (count + 1) k pend'))"

text \<open>
  The outer loop ends: a batch that deleted something removes at least one key of the
  engine when it commits.
\<close>

lemma length_fold_Del_le:
  "length (fold apply_op (map Del ks) al) \<le> length al"
proof (induction ks arbitrary: al)
  case Nil
  show ?case by simp
next
  case (Cons k ks)
  have "length (fold apply_op (map Del ks) (AList.delete k al)) \<le> length (AList.delete k al)"
    by (rule Cons.IH)
  also have "\<dots> \<le> length al" by (rule length_delete_le)
  finally show ?case by simp
qed

lemma length_delete_less:
  "k \<in> fst ` set al \<Longrightarrow> length (AList.delete k al) < length al"
proof -
  assume "k \<in> fst ` set al"
  then obtain v where "(k, v) \<in> set al" by auto
  then have "length (filter (\<lambda>(k', _). k \<noteq> k') al) < length al"
    by (rule length_filter_less) simp
  then show ?thesis by (simp add: AList.delete_eq)
qed

lemma length_fold_Del_less:
  assumes "ks \<noteq> []" "hd ks \<in> fst ` set al"
  shows "length (fold apply_op (map Del ks) al) < length al"
proof -
  from assms(1) obtain k ks' where ks: "ks = k # ks'" by (cases ks) auto
  have "length (fold apply_op (map Del ks') (AList.delete k al)) \<le> length (AList.delete k al)"
    by (rule length_fold_Del_le)
  also have "\<dots> < length al" using assms(2) by (simp add: ks length_delete_less)
  finally show ?thesis by (simp add: ks)
qed

text \<open>What one batch returns: the keys it deleted are an initial segment of the iterator.\<close>

lemma DeleteRange_batch_pend:
  "DeleteRange_batch d bs mx it n l pend = Ok (n', l', pend') \<Longrightarrow>
   \<exists>ks. pend' = pend @ map Del ks \<and> n' = n + length ks \<and> prefix ks it"
proof (induction d bs mx it n l pend rule: DeleteRange_batch.induct)
  case (1 d bs mx n l pend)
  then show ?case by simp
next
  case (2 d bs mx k it n l pend)
  show ?case
  proof (cases "prefix dbLogs k")
    case False
    with "2.prems" show ?thesis by simp
  next
    case pk: True
    show ?thesis
    proof (cases "bytesToUint64 (drop (length dbLogs) k)")
      case (Ok i)
      show ?thesis
      proof (cases "i > mx")
        case True
        with "2.prems" pk Ok show ?thesis by simp
      next
        case le: False
        show ?thesis
        proof (cases "txn_Delete d pend k")
          case del: (Ok p1)
          then have p1: "p1 = pend @ [Del k]"
            by (auto simp: txn_Delete_def split: option.splits)
          show ?thesis
          proof (cases "n + 1 \<ge> bs")
            case True
            with "2.prems" pk Ok le del have "n' = n + 1" "pend' = p1" by simp_all
            with p1 show ?thesis by (intro exI [of _ "[k]"]) simp
          next
            case False
            with "2.prems" pk Ok le del
            have "DeleteRange_batch d bs mx it (n + 1) k p1 = Ok (n', l', pend')" by simp
            from "2.IH" [OF _ Ok _ del _ this] pk le False
            obtain ks where "pend' = p1 @ map Del ks" "n' = n + 1 + length ks" "prefix ks it"
              by auto
            with p1 show ?thesis by (intro exI [of _ "k # ks"]) simp
          qed
        next
          case (Err e)
          with "2.prems" pk Ok le show ?thesis by simp
        next
          case Panic
          with "2.prems" pk Ok le show ?thesis by simp
        qed
      qed
    next
      case (Err e)
      with "2.prems" pk show ?thesis by simp
    next
      case Panic
      with "2.prems" pk show ?thesis by simp
    qed
  qed
qed

lemma set_iter_keys: "set (iter_keys d) = fst ` set (kv d)"
  by (simp add: iter_keys_def)

lemma set_Seek_subset: "set (Seek ks key) \<subseteq> set ks"
  by (auto simp: Seek_def dest: set_dropWhileD)

function DeleteRange_loop ::
  "BadgerRaftStore \<Rightarrow> nat \<Rightarrow> u64 \<Rightarrow> bytes \<Rightarrow> BadgerRaftStore \<times> unit result" where
  "DeleteRange_loop b batchSize mx minKey =
     (case DeleteRange_batch (db b) batchSize mx (Seek (iter_keys (db b)) minKey) 0 [] [] of
        Err e \<Rightarrow> (b, Err e)
      | Panic \<Rightarrow> (b, Panic)
      | Ok (count, lastKey, pend) \<Rightarrow>
          if count = 0 then (b, Ok ())
          else (case txn_Commit (db b) pend of
                  Err e \<Rightarrow> (b, Err e)
                | Panic \<Rightarrow> (b, Panic)
                | Ok d \<Rightarrow> DeleteRange_loop (b\<lparr>db := d\<rparr>) batchSize mx (lastKey @ [0])))"
  by pat_completeness auto
termination
proof (relation "measure (\<lambda>(b, batchSize, mx, minKey). length (kv (db b)))", goal_cases)
  case 1
  show ?case by simp
next
  case (2 b batchSize mx minKey x count y lastKey pend d)
  from 2 have batch: "DeleteRange_batch (db b) batchSize mx (Seek (iter_keys (db b)) minKey) 0 [] []
      = Ok (count, lastKey, pend)" by simp
  from DeleteRange_batch_pend [OF batch]
  obtain ks where ks: "pend = map Del ks" "count = length ks"
    "prefix ks (Seek (iter_keys (db b)) minKey)" by auto
  from 2 ks have ne: "ks \<noteq> []" by auto
  with ks(3) have "hd ks \<in> set (Seek (iter_keys (db b)) minKey)"
    by (auto simp: prefix_def)
  then have "hd ks \<in> fst ` set (kv (db b))"
    using set_Seek_subset set_iter_keys by blast
  from length_fold_Del_less [OF ne this]
  have "length (fold apply_op pend (kv (db b))) < length (kv (db b))" by (simp add: ks)
  moreover from 2 have "kv d = fold apply_op pend (kv (db b))"
    by (auto simp: txn_Commit_def split: option.splits)
  ultimately show ?case by simp
qed

definition DeleteRange :: "BadgerRaftStore \<Rightarrow> u64 \<Rightarrow> u64 \<Rightarrow> BadgerRaftStore \<times> unit result" where
  "DeleteRange b min0 max0 = DeleteRange_loop b 100 max0 (addPrefix dbLogs (uint64ToBytes min0))"

definition Set :: "BadgerRaftStore \<Rightarrow> bytes \<Rightarrow> bytes \<Rightarrow> BadgerRaftStore \<times> unit result" where
  "Set b k v =
     (case txn_Set (db b) [] (addPrefix dbConf k) v of
        Err e \<Rightarrow> (b, Err e)
      | Panic \<Rightarrow> (b, Panic)
      | Ok pend \<Rightarrow> Commit b pend)"

text \<open>
  \<^verbatim>\<open>Get\<close> returns \<^verbatim>\<open>append([]byte(nil), val...)\<close>, a newly allocated array. To say so,
  the arrays handed to callers live in a heap, a list of byte arrays addressed by
  position; allocation appends an array and returns its address.
\<close>

type_synonym heap = "bytes list"

definition go_alloc :: "heap \<Rightarrow> bytes \<Rightarrow> heap \<times> nat" where
  "go_alloc h bs = (h @ [bs], length h)"

definition Get :: "BadgerRaftStore \<Rightarrow> heap \<Rightarrow> bytes \<Rightarrow> heap \<times> nat result" where
  "Get b h k =
     (case txn_Get (db b) (addPrefix dbConf k) of
        Err e \<Rightarrow> (h, Err ErrKeyNotFound)
      | Panic \<Rightarrow> (h, Panic)
      | Ok item \<Rightarrow>
          (case item_ValueCopy (db b) item of
             Err e \<Rightarrow> (h, Err ErrKeyNotFound)
           | Panic \<Rightarrow> (h, Panic)
           | Ok val \<Rightarrow>
               if val = [] then (h, Err ErrKeyNotFound)
               else (case go_alloc h val of (h', a) \<Rightarrow> (h', Ok a))))"

definition SetUint64 :: "BadgerRaftStore \<Rightarrow> bytes \<Rightarrow> u64 \<Rightarrow> BadgerRaftStore \<times> unit result" where
  "SetUint64 b key val = Set b key (uint64ToBytes val)"

definition GetUint64 :: "BadgerRaftStore \<Rightarrow> heap \<Rightarrow> bytes \<Rightarrow> heap \<times> u64 result" where
  "GetUint64 b h key =
     (case Get b h key of
        (h', Err e) \<Rightarrow> (h', Err e)
      | (h', Panic) \<Rightarrow> (h', Panic)
      | (h', Ok a) \<Rightarrow> (h', bytesToUint64 (h' ! a)))"

section \<open>Test fixtures and specification devices\<close>

text \<open>The key of a log index in the \<^verbatim>\<open>"logs"\<close> namespace, as the store derives it.\<close>

abbreviation logKey :: "u64 \<Rightarrow> bytes" where
  "logKey idx \<equiv> addPrefix dbLogs (uint64ToBytes idx)"

text \<open>
  \<^verbatim>\<open>testRaftLog\<close> is the helper of the package's tests. \<open>test_codec\<close> is a small codec for
  the concrete examples: it writes the index in 8 bytes and then the payload.
  \<open>testBadgerStore\<close> is a new, empty store on an engine that never fails.
\<close>

definition testRaftLog :: "u64 \<Rightarrow> bytes \<Rightarrow> raft_log" where
  "testRaftLog idx data =
     \<lparr>Index = idx, Term = 0, Type = 0, Data = data, Extensions = [], AppendedAt = 0\<rparr>"

definition test_codec :: msgpack where
  "test_codec =
     \<lparr>mp_encode = (\<lambda>_ l. Inr (uint64ToBytes (Index l) @ Data l)),
      mp_decode = (\<lambda>buf. if length buf < 8 then Inl 1
                          else Inr (testRaftLog (BigEndian_Uint64 buf) (drop 8 buf)))\<rparr>"

definition testBadgerStore :: BadgerRaftStore where
  "testBadgerStore =
     \<lparr>db = \<lparr>kv = [], get_fails = (\<lambda>_. None), value_fails = (\<lambda>_. None),
             set_fails = (\<lambda>_ _ _. None), delete_fails = (\<lambda>_ _. None),
             commit_fails = (\<lambda>_. None)\<rparr>,
      path = [], msgpackUseNewTimeFormat = False\<rparr>"

text \<open>
  The bytes the codec gives for a record, and the writes a batch of records asks for.
\<close>

definition encoded :: "msgpack \<Rightarrow> BadgerRaftStore \<Rightarrow> raft_log \<Rightarrow> bytes" where
  "encoded c b l = (case EncodeMsgPack c l (msgpackUseNewTimeFormat b) of Ok v \<Rightarrow> v | _ \<Rightarrow> [])"

definition log_puts :: "msgpack \<Rightarrow> BadgerRaftStore \<Rightarrow> raft_log list \<Rightarrow> write_op list" where
  "log_puts c b logs = map (\<lambda>l. Put (logKey (Index l)) (encoded c b l)) logs"

text \<open>
  \<open>test_logs\<close> is the test store after two records were stored; \<open>failing_reads\<close> is a
  store whose engine fails every lookup with the given error code, as an engine does that
  was closed or lost its files.
\<close>

definition test_logs :: BadgerRaftStore where
  "test_logs = fst (StoreLogs test_codec testBadgerStore [testRaftLog 1 [0x61], testRaftLog 2 [0x62]])"

definition failing_reads :: "nat \<Rightarrow> BadgerRaftStore \<Rightarrow> BadgerRaftStore" where
  "failing_reads code b = b\<lparr>db := (db b)\<lparr>get_fails := (\<lambda>_. Some code)\<rparr>\<rparr>"

text \<open>
  Devices for the log namespace: the index a key of the namespace carries, the property
  that every key of the namespace has the 8 bytes of an index after the prefix, the set of
  the indices stored, and the keys that \<^verbatim>\<open>DeleteRange\<close> is to delete from a cursor \<open>c\<close>
  on: those of the namespace, at or after \<open>c\<close>, with an index of at most \<open>mx\<close>.
\<close>

definition keyIndex :: "bytes \<Rightarrow> u64" where
  "keyIndex k = BigEndian_Uint64 (drop (length dbLogs) k)"

definition log_keys_ok :: "BadgerRaftStore \<Rightarrow> bool" where
  "log_keys_ok b \<longleftrightarrow>
     (\<forall>k \<in> fst ` set (kv (db b)). prefix dbLogs k \<longrightarrow> length k = length dbLogs + 8)"

definition stored_indices :: "BadgerRaftStore \<Rightarrow> u64 set" where
  "stored_indices b = {i. logKey i \<in> fst ` set (kv (db b))}"


text \<open>
  Two more test stores: one with a record at index 1 and one at \<^verbatim>\<open>0xFF00000000000000\<close>,
  and the store of the package's \<^verbatim>\<open>DeleteRange\<close> test, with records 1 to 5, and one
  entry of the stable store.
\<close>

definition test_high :: BadgerRaftStore where
  "test_high = fst (StoreLogs test_codec testBadgerStore
     [testRaftLog 1 [0x61], testRaftLog 0xFF00000000000000 [0x62]])"

definition test_five :: BadgerRaftStore where
  "test_five = fst (Set (fst (StoreLogs test_codec testBadgerStore
     [testRaftLog 1 [0x61], testRaftLog 2 [0x62], testRaftLog 3 [0x63], testRaftLog 4 [0x64],
      testRaftLog 5 [0x65]])) [0x68] [0x77])"

section \<open>Proof devices for the big-endian encoding\<close>

text \<open>The number a byte string denotes when read big-endian.\<close>

fun be_nat :: "bytes \<Rightarrow> nat" where
  "be_nat [] = 0"
| "be_nat (b # bs) = unat b * 256 ^ length bs + be_nat bs"

section \<open>The index codec\<close>

lemma length_uint64ToBytes: "length (uint64ToBytes u) = 8"
  by (simp add: uint64ToBytes_def)

lemma BigEndian_Uint64_uint64ToBytes: "BigEndian_Uint64 (uint64ToBytes u) = u"
proof (rule bit_word_eqI)
  fix n assume "n < LENGTH(64)"
  then have n: "n < 64" by simp
  consider "n < 8" | "8 \<le> n" "n < 16" | "16 \<le> n" "n < 24" | "24 \<le> n" "n < 32"
    | "32 \<le> n" "n < 40" | "40 \<le> n" "n < 48" | "48 \<le> n" "n < 56" | "56 \<le> n" "n < 64"
    using n by linarith
  then show "bit (BigEndian_Uint64 (uint64ToBytes u)) n = bit u n"
    by cases (auto simp add: BigEndian_Uint64_def uint64ToBytes_def bit_simps)
qed

text \<open>
  C5. Index codec round trip: for every 64-bit index \<open>u\<close>, decoding the 8-byte big-endian
  encoding of \<open>u\<close> returns \<open>u\<close>, without a panic; the encoding has exactly 8 bytes. This
  covers the whole domain, 0 and the maximum included.
\<close>

theorem index_codec_roundtrip:
  "bytesToUint64 (uint64ToBytes u) = Ok u \<and> length (uint64ToBytes u) = 8"
  by (simp add: bytesToUint64_def length_uint64ToBytes BigEndian_Uint64_uint64ToBytes)

lemma index_codec_roundtrip_zero: "bytesToUint64 (uint64ToBytes 0) = Ok 0"
  by (simp add: bytesToUint64_def uint64ToBytes_def BigEndian_Uint64_def)

lemma index_codec_roundtrip_max:
  "bytesToUint64 (uint64ToBytes 0xFFFFFFFFFFFFFFFF) = Ok 0xFFFFFFFFFFFFFFFF"
  by (simp add: bytesToUint64_def uint64ToBytes_def BigEndian_Uint64_def)


section \<open>Byte order and numeric order\<close>

lemma append_less_append: "p @ xs < p @ ys \<longleftrightarrow> xs < ys" for p :: "'a::linorder list"
  by (induction p) simp_all

lemma append_le_append: "p @ xs \<le> p @ ys \<longleftrightarrow> xs \<le> ys" for p :: "'a::linorder list"
  by (induction p) simp_all

lemma less_append_iff: "p < p @ s \<longleftrightarrow> s \<noteq> []" for p :: "'a::linorder list"
  using append_less_append [of p "[]" s] by (cases s) simp_all

lemma be_nat_bound: "be_nat bs < 256 ^ length bs"
proof (induction bs)
  case Nil
  show ?case by simp
next
  case (Cons b bs)
  let ?N = "256 ^ length bs :: nat"
  have "unat b < 256" using unsigned_less [of b, where ?'a = nat] by simp
  then have "unat b + 1 \<le> 256" by simp
  then have le: "(unat b + 1) * ?N \<le> 256 * ?N"
    by (rule mult_le_mono1)
  have "unat b * ?N + be_nat bs < unat b * ?N + ?N"
    using Cons.IH by simp
  also have "\<dots> = (unat b + 1) * ?N" by (simp add: algebra_simps)
  finally have "unat b * ?N + be_nat bs < 256 * ?N" using le by linarith
  then show ?case by simp
qed

text \<open>On byte strings of one length, the bytewise order is the order of the numbers read.\<close>

lemma be_nat_less:
  "length xs = length ys \<Longrightarrow> xs < ys \<longleftrightarrow> be_nat xs < be_nat ys"
proof (induction xs ys rule: list_induct2)
  case Nil
  show ?case by simp
next
  case (Cons x xs y ys)
  let ?N = "256 ^ length ys :: nat"
  have bx: "be_nat xs < ?N" using be_nat_bound [of xs] Cons.hyps by simp
  have by': "be_nat ys < ?N" using be_nat_bound [of ys] by simp
  show ?case
  proof (cases "x = y")
    case True
    with Cons show ?thesis by simp
  next
    case False
    show ?thesis
    proof (cases "x < y")
      case True
      then have "unat x + 1 \<le> unat y" by (simp add: word_less_nat_alt)
      then have "(unat x + 1) * ?N \<le> unat y * ?N" by (rule mult_le_mono1)
      then have "unat x * ?N + be_nat xs < unat y * ?N + be_nat ys"
        using bx by (simp add: algebra_simps)
      with True Cons.hyps show ?thesis by simp
    next
      case F2: False
      with False have "y < x" by simp
      then have "unat y + 1 \<le> unat x" by (simp add: word_less_nat_alt)
      then have "(unat y + 1) * ?N \<le> unat x * ?N" by (rule mult_le_mono1)
      then have "unat y * ?N + be_nat ys < unat x * ?N + be_nat xs"
        using by' by (simp add: algebra_simps)
      with F2 False Cons.hyps show ?thesis by simp
    qed
  qed
qed

text \<open>The encoding of \<open>u\<close>, read big-endian, is the number \<open>u\<close>.\<close>

lemma be_nat_uint64ToBytes: "be_nat (uint64ToBytes u) = unat u"
proof -
  define n where "n = unat u"
  define a where "a k = n div 256 ^ k mod 256" for k
  define r where "r k = n mod 256 ^ k" for k
  have n: "n < 2 ^ 64" using unsigned_less [of u, where ?'a = nat] by (simp add: n_def)
  have b: "unat (ucast (drop_bit 56 u) :: byte) = a 7" "unat (ucast (drop_bit 48 u) :: byte) = a 6"
    "unat (ucast (drop_bit 40 u) :: byte) = a 5" "unat (ucast (drop_bit 32 u) :: byte) = a 4"
    "unat (ucast (drop_bit 24 u) :: byte) = a 3" "unat (ucast (drop_bit 16 u) :: byte) = a 2"
    "unat (ucast (drop_bit 8 u) :: byte) = a 1" "unat (ucast u :: byte) = a 0"
    unfolding a_def n_def unsigned_ucast_eq unat_drop_bit_eq
    by (simp_all add: drop_bit_eq_div take_bit_eq_mod)
  have s: "r (Suc k) = a k * 256 ^ k + r k" for k
    unfolding r_def a_def power_Suc2 mod_mult2_eq by (simp add: mult.commute)
  have "r 8 = a 7 * 256 ^ 7 + r 7" using s [of 7] by simp
  moreover have "r 7 = a 6 * 256 ^ 6 + r 6" using s [of 6] by simp
  moreover have "r 6 = a 5 * 256 ^ 5 + r 5" using s [of 5] by simp
  moreover have "r 5 = a 4 * 256 ^ 4 + r 4" using s [of 4] by simp
  moreover have "r 4 = a 3 * 256 ^ 3 + r 3" using s [of 3] by simp
  moreover have "r 3 = a 2 * 256 ^ 2 + r 2" using s [of 2] by simp
  moreover have "r 2 = a 1 * 256 ^ 1 + r 1" using s [of 1] by (simp add: numeral_2_eq_2)
  moreover have "r 1 = a 0 + r 0" using s [of 0] by simp
  moreover have "r 8 = n" using n by (simp add: r_def)
  moreover have "r 0 = 0" by (simp add: r_def)
  ultimately have "a 7 * 256 ^ 7 + (a 6 * 256 ^ 6 + (a 5 * 256 ^ 5 + (a 4 * 256 ^ 4 +
    (a 3 * 256 ^ 3 + (a 2 * 256 ^ 2 + (a 1 * 256 ^ 1 + a 0)))))) = n"
    by linarith
  then show ?thesis
    unfolding uint64ToBytes_def n_def [symmetric]
    by (simp add: b)
qed

lemma uint64ToBytes_less: "uint64ToBytes i < uint64ToBytes j \<longleftrightarrow> i < j"
  by (simp add: be_nat_less length_uint64ToBytes be_nat_uint64ToBytes word_less_nat_alt)

lemma uint64ToBytes_inj: "uint64ToBytes i = uint64ToBytes j \<longleftrightarrow> i = j"
proof
  assume "uint64ToBytes i = uint64ToBytes j"
  then have "BigEndian_Uint64 (uint64ToBytes i) = BigEndian_Uint64 (uint64ToBytes j)"
    by (rule arg_cong)
  then show "i = j" by (simp only: BigEndian_Uint64_uint64ToBytes)
next
  assume "i = j"
  then show "uint64ToBytes i = uint64ToBytes j" by (rule arg_cong)
qed

lemma uint64ToBytes_le: "uint64ToBytes i \<le> uint64ToBytes j \<longleftrightarrow> i \<le> j"
  by (simp add: le_less uint64ToBytes_less uint64ToBytes_inj)

text \<open>
  C6. Key-order homomorphism: for all 64-bit indices \<open>i\<close> and \<open>j\<close>, the encoding of \<open>i\<close> sorts
  bytewise before the encoding of \<open>j\<close> exactly when \<open>i < j\<close>, and the same holds for the keys
  derived from them in the \<^verbatim>\<open>"logs"\<close> namespace.
\<close>

theorem key_order_homomorphism:
  "(uint64ToBytes i < uint64ToBytes j \<longleftrightarrow> i < j) \<and>
   (addPrefix dbLogs (uint64ToBytes i) < addPrefix dbLogs (uint64ToBytes j) \<longleftrightarrow> i < j)"
  by (simp add: addPrefix_def append_less_append uint64ToBytes_less)

section \<open>The upper bound of a prefix\<close>

lemma End_eq: "End p = p @ [0xFF]"
proof -
  have "replicate (length p + 1) (0::byte) = replicate (length p) 0 @ [0]"
    by (simp add: replicate_append_same)
  then show ?thesis
    by (simp add: End_def go_copy_def Let_def list_update_append del: replicate_Suc)
qed

lemma byte_less_FF: "(x :: byte) < 0xFF \<longleftrightarrow> x \<noteq> 0xFF"
proof -
  have "(0xFF :: byte) = - 1" by simp
  then have "x \<le> 0xFF" by (simp only: word_order.extremum)
  then show ?thesis by auto
qed

text \<open>
  C1, as the code has it. \<^verbatim>\<open>End\<close> appends the one byte \<^verbatim>\<open>0xFF\<close>. For every prefix \<open>p\<close> and
  every key \<open>k\<close> that starts with \<open>p\<close>, \<open>k\<close> sorts strictly before \<open>End p\<close> exactly when \<open>k\<close>
  does not itself start with \<open>End p\<close>, that is, when \<open>k\<close> is \<open>p\<close> or its byte after \<open>p\<close> is
  below \<^verbatim>\<open>0xFF\<close>.
\<close>

theorem End_bound:
  "prefix p k \<Longrightarrow> k < End p \<longleftrightarrow> \<not> prefix (End p) k"
proof -
  assume "prefix p k"
  then obtain s where k: "k = p @ s" by (auto simp: prefix_def)
  show ?thesis
    by (cases s) (simp_all add: k End_eq append_less_append less_append_iff byte_less_FF)
qed

theorem End_bound_witness:
  "prefix dbLogs (addPrefix dbLogs (uint64ToBytes 1))
   \<and> addPrefix dbLogs (uint64ToBytes 1) < End dbLogs"
proof -
  have h: "prefix dbLogs (addPrefix dbLogs (uint64ToBytes 1))"
    by (simp add: addPrefix_def)
  have "\<not> prefix (End dbLogs) (addPrefix dbLogs (uint64ToBytes 1))"
    by (simp add: End_eq addPrefix_def dbLogs_def uint64ToBytes_def)
  with End_bound [OF h] h show ?thesis by simp
qed

text \<open>
  The claim as the specification states it fails: the key of index \<^verbatim>\<open>0xFF00000000000000\<close>
  in the \<^verbatim>\<open>"logs"\<close> namespace starts with the prefix and does not sort before its bound.
\<close>

theorem End_bound_counterexample:
  "prefix dbLogs (addPrefix dbLogs (uint64ToBytes 0xFF00000000000000))
   \<and> \<not> addPrefix dbLogs (uint64ToBytes 0xFF00000000000000) < End dbLogs"
  by (simp add: End_eq addPrefix_def dbLogs_def uint64ToBytes_def)

section \<open>StoreLogs\<close>

lemma StoreLogs_loop_Ok:
  "StoreLogs_loop c b pend logs = Ok pend' \<Longrightarrow>
   pend' = pend @ log_puts c b logs \<and>
   (\<forall>l\<in>set logs. EncodeMsgPack c l (msgpackUseNewTimeFormat b) = Ok (encoded c b l))"
proof (induction logs arbitrary: pend)
  case Nil
  then show ?case by (simp add: log_puts_def)
next
  case (Cons l logs)
  from Cons.prems obtain v where v: "EncodeMsgPack c l (msgpackUseNewTimeFormat b) = Ok v"
    by (auto split: result.splits)
  with Cons.prems obtain p1 where p1: "txn_Set (db b) pend (logKey (Index l)) v = Ok p1"
    and rest: "StoreLogs_loop c b p1 logs = Ok pend'"
    by (auto split: result.splits)
  from p1 have p1_eq: "p1 = pend @ [Put (logKey (Index l)) v]"
    by (auto simp: txn_Set_def split: option.splits)
  from v have enc: "encoded c b l = v" by (simp add: encoded_def)
  from Cons.IH [OF rest] p1_eq enc v show ?case
    by (simp add: log_puts_def)
qed

lemma StoreLogs_loop_no_Panic: "StoreLogs_loop c b pend logs \<noteq> Panic"
proof (induction logs arbitrary: pend)
  case Nil
  show ?case by simp
next
  case (Cons l logs)
  show ?case
    using Cons.IH
    by (auto simp: EncodeMsgPack_def txn_Set_def split: result.splits sum.splits option.splits)
qed

lemma StoreLogs_loop_encode_fails:
  "l \<in> set logs \<Longrightarrow> EncodeMsgPack c l (msgpackUseNewTimeFormat b) = Err e \<Longrightarrow>
   \<exists>e'. StoreLogs_loop c b pend logs = Err e'"
proof -
  assume a: "l \<in> set logs" "EncodeMsgPack c l (msgpackUseNewTimeFormat b) = Err e"
  show ?thesis
  proof (cases "StoreLogs_loop c b pend logs")
    case (Ok pend')
    from StoreLogs_loop_Ok [OF Ok] a show ?thesis by auto
  next
    case (Err e')
    then show ?thesis by simp
  next
    case Panic
    then show ?thesis by (simp add: StoreLogs_loop_no_Panic)
  qed
qed

lemma Commit_cases:
  "Commit b pend = (b', r) \<Longrightarrow>
   (r = Ok () \<and> b' = b\<lparr>db := (db b)\<lparr>kv := fold apply_op pend (kv (db b))\<rparr>\<rparr>) \<or>
   ((\<exists>e. r = Err e) \<and> b' = b)"
  by (auto simp: Commit_def txn_Commit_def split: option.splits)

lemma map_of_fold_Put_other:
  "k \<notin> f ` set ls \<Longrightarrow>
   map_of (fold apply_op (map (\<lambda>l. Put (f l) (g l)) ls) al) k = map_of al k"
  by (induction ls arbitrary: al) (simp_all add: update_conv')

lemma map_of_fold_Put_stored:
  "k \<in> f ` set ls \<Longrightarrow>
   \<exists>l'\<in>set ls. f l' = k \<and>
     map_of (fold apply_op (map (\<lambda>l. Put (f l) (g l)) ls) al) k = Some (g l')"
proof (induction ls arbitrary: al)
  case Nil
  then show ?case by simp
next
  case (Cons x xs)
  show ?case
  proof (cases "k \<in> f ` set xs")
    case True
    from Cons.IH [OF True, of "AList.update (f x) (g x) al"] show ?thesis by auto
  next
    case False
    with Cons.prems have fx: "f x = k" by auto
    from map_of_fold_Put_other [OF False, of g "AList.update (f x) (g x) al"] fx
    have "map_of (fold apply_op (map (\<lambda>l. Put (f l) (g l)) (x # xs)) al) k = Some (g x)"
      by (simp add: update_conv')
    with fx show ?thesis by auto
  qed
qed

lemma map_of_log_puts_other:
  "k \<notin> (\<lambda>l. logKey (Index l)) ` set logs \<Longrightarrow>
   map_of (fold apply_op (log_puts c b logs) al) k = map_of al k"
  unfolding log_puts_def by (rule map_of_fold_Put_other)

lemma map_of_log_puts_stored:
  assumes "l \<in> set logs"
  shows "\<exists>l'\<in>set logs. Index l' = Index l \<and>
     map_of (fold apply_op (log_puts c b logs) al) (logKey (Index l)) = Some (encoded c b l')"
proof -
  from assms have "logKey (Index l) \<in> (\<lambda>l. logKey (Index l)) ` set logs" by blast
  from map_of_fold_Put_stored [OF this, of "encoded c b" al]
  obtain l' where "l' \<in> set logs" "logKey (Index l') = logKey (Index l)"
    "map_of (fold apply_op (log_puts c b logs) al) (logKey (Index l)) = Some (encoded c b l')"
    unfolding log_puts_def by blast
  then show ?thesis by (auto simp: addPrefix_def uint64ToBytes_inj)
qed

text \<open>
  C4. \<^verbatim>\<open>StoreLogs\<close> is all or nothing. For every codec, store and list of records, a call
  either succeeds, and then every record was encoded, the engine holds exactly the old
  contents with all the writes of the batch applied in order, every index of the batch is
  stored with the encoding of a record of the batch that has this index, and every other
  key is as before; or it returns an error and the store is exactly as before the call.
  It never panics.
\<close>

theorem StoreLogs_all_or_nothing:
  assumes "StoreLogs c b logs = (b', r)"
  shows "(r = Ok () \<and>
          (\<forall>l\<in>set logs. EncodeMsgPack c l (msgpackUseNewTimeFormat b) = Ok (encoded c b l)) \<and>
          b' = b\<lparr>db := (db b)\<lparr>kv := fold apply_op (log_puts c b logs) (kv (db b))\<rparr>\<rparr> \<and>
          (\<forall>l\<in>set logs. \<exists>l'\<in>set logs. Index l' = Index l \<and>
             map_of (kv (db b')) (logKey (Index l)) = Some (encoded c b l')) \<and>
          (\<forall>k. k \<notin> (\<lambda>l. logKey (Index l)) ` set logs \<longrightarrow>
             map_of (kv (db b')) k = map_of (kv (db b)) k))
       \<or> ((\<exists>e. r = Err e) \<and> b' = b)"
proof (cases "StoreLogs_loop c b [] logs")
  case (Ok pend)
  from StoreLogs_loop_Ok [OF Ok] have pend: "pend = log_puts c b logs"
    and enc: "\<forall>l\<in>set logs. EncodeMsgPack c l (msgpackUseNewTimeFormat b) = Ok (encoded c b l)"
    by simp_all
  from assms Ok have "Commit b pend = (b', r)" by (simp add: StoreLogs_def)
  from Commit_cases [OF this]
  consider "r = Ok ()" "b' = b\<lparr>db := (db b)\<lparr>kv := fold apply_op pend (kv (db b))\<rparr>\<rparr>"
    | "\<exists>e. r = Err e" "b' = b" by blast
  then show ?thesis
  proof cases
    case 1
    then have kv: "kv (db b') = fold apply_op (log_puts c b logs) (kv (db b))"
      by (simp add: pend)
    have "\<forall>l\<in>set logs. \<exists>l'\<in>set logs. Index l' = Index l \<and>
        map_of (kv (db b')) (logKey (Index l)) = Some (encoded c b l')"
      unfolding kv using map_of_log_puts_stored by blast
    moreover have "\<forall>k. k \<notin> (\<lambda>l. logKey (Index l)) ` set logs \<longrightarrow>
        map_of (kv (db b')) k = map_of (kv (db b)) k"
      unfolding kv using map_of_log_puts_other by blast
    ultimately show ?thesis using 1 enc pend by blast
  next
    case 2
    then show ?thesis by blast
  qed
next
  case (Err e)
  with assms show ?thesis by (auto simp: StoreLogs_def)
next
  case Panic
  then show ?thesis by (simp add: StoreLogs_loop_no_Panic)
qed

text \<open>A record that the codec rejects makes the whole call fail, with nothing stored.\<close>

lemma StoreLogs_encode_error:
  assumes "l \<in> set logs" "EncodeMsgPack c l (msgpackUseNewTimeFormat b) = Err e"
  shows "\<exists>e'. StoreLogs c b logs = (b, Err e')"
  using StoreLogs_loop_encode_fails [OF assms, of "[]"] by (auto simp: StoreLogs_def)

lemma StoreLogs_test:
  "StoreLogs test_codec testBadgerStore [testRaftLog 1 [0x61], testRaftLog 2 [0x62]] =
    (testBadgerStore\<lparr>db := (db testBadgerStore)\<lparr>kv :=
        [(logKey 1, uint64ToBytes 1 @ [0x61]), (logKey 2, uint64ToBytes 2 @ [0x62])]\<rparr>\<rparr>, Ok ())"
  by (simp add: StoreLogs_def Commit_def txn_Commit_def txn_Set_def EncodeMsgPack_def
      test_codec_def testBadgerStore_def testRaftLog_def addPrefix_def dbLogs_def uint64ToBytes_def)

theorem StoreLogs_all_or_nothing_witness:
  "StoreLogs test_codec testBadgerStore [testRaftLog 1 [0x61], testRaftLog 2 [0x62]] =
    (testBadgerStore\<lparr>db := (db testBadgerStore)\<lparr>kv :=
        [(logKey 1, uint64ToBytes 1 @ [0x61]), (logKey 2, uint64ToBytes 2 @ [0x62])]\<rparr>\<rparr>, Ok ()) \<and>
   map_of [(logKey 1, uint64ToBytes 1 @ [0x61]), (logKey 2, uint64ToBytes 2 @ [0x62])]
     (addPrefix dbConf [0x78]) = map_of (kv (db testBadgerStore)) (addPrefix dbConf [0x78])"
proof -
  let ?b' = "testBadgerStore\<lparr>db := (db testBadgerStore)\<lparr>kv :=
        [(logKey 1, uint64ToBytes 1 @ [0x61]), (logKey 2, uint64ToBytes 2 @ [0x62])]\<rparr>\<rparr>"
  have "addPrefix dbConf [0x78] \<notin>
      (\<lambda>l. logKey (Index l)) ` set [testRaftLog 1 [0x61], testRaftLog 2 [0x62]]"
    by (simp add: addPrefix_def dbConf_def dbLogs_def)
  with StoreLogs_all_or_nothing [OF StoreLogs_test] StoreLogs_test
  show ?thesis by simp
qed

section \<open>GetLog\<close>

lemma DecodeMsgPack_not_found: "DecodeMsgPack c v \<noteq> Err ErrLogNotFound"
  by (simp add: DecodeMsgPack_def split: sum.splits)

lemma DecodeMsgPack_not_engine: "DecodeMsgPack c v \<noteq> Err (EngineFailure e)"
  by (simp add: DecodeMsgPack_def split: sum.splits)

text \<open>
  C8, as the code has it. For every codec, store and index \<open>i\<close>, \<^verbatim>\<open>GetLog\<close> returns
  \<^verbatim>\<open>ErrLogNotFound\<close> exactly when the engine's lookup of the key of \<open>i\<close> fails, no value
  is stored under the key, the engine's copy of the value fails, or the stored value is
  empty. When the engine's calls succeed and a non-empty value is stored, \<^verbatim>\<open>GetLog\<close>
  returns what the codec decodes from it, the record or the codec's error. \<^verbatim>\<open>GetLog\<close>
  never returns an error of the engine: every such error is reported as
  \<^verbatim>\<open>ErrLogNotFound\<close>.
\<close>

theorem GetLog_not_found_iff:
  "(GetLog c b i = Err ErrLogNotFound \<longleftrightarrow>
      get_fails (db b) (logKey i) \<noteq> None \<or> map_of (kv (db b)) (logKey i) = None \<or>
      value_fails (db b) (logKey i) \<noteq> None \<or> map_of (kv (db b)) (logKey i) = Some []) \<and>
   (\<forall>v. get_fails (db b) (logKey i) = None \<and> value_fails (db b) (logKey i) = None \<and>
        map_of (kv (db b)) (logKey i) = Some v \<and> v \<noteq> [] \<longrightarrow>
        GetLog c b i = DecodeMsgPack c v) \<and>
   (\<forall>e. GetLog c b i \<noteq> Err (EngineFailure e))"
  by (auto simp: GetLog_def txn_Get_def item_ValueCopy_def DecodeMsgPack_not_found
      DecodeMsgPack_not_engine split: option.splits)

lemma test_logs_eq:
  "test_logs = testBadgerStore\<lparr>db := (db testBadgerStore)\<lparr>kv :=
        [(logKey 1, uint64ToBytes 1 @ [0x61]), (logKey 2, uint64ToBytes 2 @ [0x62])]\<rparr>\<rparr>"
  by (simp add: test_logs_def StoreLogs_test)

theorem GetLog_not_found_iff_witness:
  "GetLog test_codec test_logs 2 = Ok (testRaftLog 2 [0x62]) \<and>
   GetLog test_codec test_logs 3 = Err ErrLogNotFound \<and>
   map_of (kv (db test_logs)) (logKey 3) = None"
proof -
  have h: "get_fails (db test_logs) (logKey 2) = None \<and> value_fails (db test_logs) (logKey 2) = None \<and>
      map_of (kv (db test_logs)) (logKey 2) = Some (uint64ToBytes 2 @ [0x62]) \<and>
      uint64ToBytes 2 @ [0x62] \<noteq> []"
    by (simp add: test_logs_eq testBadgerStore_def addPrefix_def dbLogs_def uint64ToBytes_def)
  have n: "map_of (kv (db test_logs)) (logKey 3) = None"
    by (simp add: test_logs_eq testBadgerStore_def addPrefix_def dbLogs_def uint64ToBytes_def)
  have d: "DecodeMsgPack test_codec (uint64ToBytes 2 @ [0x62]) = Ok (testRaftLog 2 [0x62])"
    by (simp add: DecodeMsgPack_def test_codec_def uint64ToBytes_def BigEndian_Uint64_def)
  from GetLog_not_found_iff [of test_codec test_logs 2] h d
  have "GetLog test_codec test_logs 2 = Ok (testRaftLog 2 [0x62])" by simp
  moreover from GetLog_not_found_iff [of test_codec test_logs 3] n
  have "GetLog test_codec test_logs 3 = Err ErrLogNotFound" by simp
  ultimately show ?thesis using n by simp
qed

text \<open>
  The claim as the specification states it fails: with a non-empty record stored at index 1
  and an engine whose lookup fails with error 5, \<^verbatim>\<open>GetLog\<close> reports \<^verbatim>\<open>ErrLogNotFound\<close>.
\<close>

theorem GetLog_engine_failure_counterexample:
  "map_of (kv (db (failing_reads 5 test_logs))) (logKey 1) = Some (uint64ToBytes 1 @ [0x61]) \<and>
   uint64ToBytes 1 @ [0x61] \<noteq> [] \<and>
   txn_Get (db (failing_reads 5 test_logs)) (logKey 1) = Err (EngineFailure 5) \<and>
   GetLog test_codec (failing_reads 5 test_logs) 1 = Err ErrLogNotFound"
  by (simp add: failing_reads_def test_logs_eq testBadgerStore_def GetLog_def txn_Get_def
      addPrefix_def dbLogs_def uint64ToBytes_def)

section \<open>Set, Get\<close>

lemma Set_Ok:
  "Set b k v = (b', Ok ()) \<Longrightarrow>
   b' = b\<lparr>db := (db b)\<lparr>kv := AList.update (addPrefix dbConf k) v (kv (db b))\<rparr>\<rparr>"
  by (auto simp: Set_def Commit_def txn_Set_def txn_Commit_def split: option.splits)

lemma Set_cases:
  "Set b k v = (b', r) \<Longrightarrow>
   (r = Ok () \<and> b' = b\<lparr>db := (db b)\<lparr>kv := AList.update (addPrefix dbConf k) v (kv (db b))\<rparr>\<rparr>)
   \<or> ((\<exists>e. r = Err e) \<and> b' = b)"
  by (auto simp: Set_def Commit_def txn_Set_def txn_Commit_def split: option.splits)

lemma Get_after_Set:
  assumes "Set b k v = (b', Ok ())"
    and "get_fails (db b) (addPrefix dbConf k) = None"
    and "value_fails (db b) (addPrefix dbConf k) = None"
  shows "Get b' h k = (if v = [] then (h, Err ErrKeyNotFound) else (h @ [v], Ok (length h)))"
  using assms(2,3) unfolding Set_Ok [OF assms(1)]
  by (simp add: Get_def txn_Get_def item_ValueCopy_def go_alloc_def update_conv')

text \<open>
  C7, as the code has it. For every key \<open>k\<close> and every non-empty value \<open>v\<close>, after
  \<^verbatim>\<open>Set(k, v)\<close> succeeded and while the engine's reads of the key succeed, \<^verbatim>\<open>Get(k)\<close>
  returns a newly allocated array, at an address no earlier array has, that holds exactly
  \<open>v\<close>; the arrays allocated before are as they were; and after the caller overwrites the
  returned array with any bytes \<open>w\<close>, the next \<^verbatim>\<open>Get(k)\<close> on the same store returns \<open>v\<close>
  again, in another new array.
\<close>

theorem Set_Get_roundtrip:
  assumes "Set b k v = (b', Ok ())" and "v \<noteq> []"
    and "get_fails (db b) (addPrefix dbConf k) = None"
    and "value_fails (db b) (addPrefix dbConf k) = None"
  shows "Get b' h k = (h @ [v], Ok (length h)) \<and>
         (h @ [v]) ! length h = v \<and>
         (\<forall>a < length h. (h @ [v]) ! a = h ! a) \<and>
         (\<forall>w. Get b' ((h @ [v])[length h := w]) k =
                ((h @ [v])[length h := w] @ [v], Ok (Suc (length h))))"
proof -
  have g: "Get b' h' k = (h' @ [v], Ok (length h'))" for h'
    using Get_after_Set [OF assms(1,3,4), of h'] assms(2) by simp
  have "Get b' ((h @ [v])[length h := w]) k =
      ((h @ [v])[length h := w] @ [v], Ok (Suc (length h)))" for w
    using g [of "(h @ [v])[length h := w]"] by simp
  with g [of h] show ?thesis by (simp add: nth_append)
qed

theorem Set_Get_roundtrip_witness:
  "Set testBadgerStore [0x68] [0x77, 0x6F] =
     (testBadgerStore\<lparr>db := (db testBadgerStore)\<lparr>kv := [(addPrefix dbConf [0x68], [0x77, 0x6F])]\<rparr>\<rparr>, Ok ()) \<and>
   Get (testBadgerStore\<lparr>db := (db testBadgerStore)\<lparr>kv := [(addPrefix dbConf [0x68], [0x77, 0x6F])]\<rparr>\<rparr>)
     [[0x01]] [0x68] = ([[0x01], [0x77, 0x6F]], Ok 1) \<and>
   Get (testBadgerStore\<lparr>db := (db testBadgerStore)\<lparr>kv := [(addPrefix dbConf [0x68], [0x77, 0x6F])]\<rparr>\<rparr>)
     [[0x01], [0x00]] [0x68] = ([[0x01], [0x00], [0x77, 0x6F]], Ok 2)"
proof -
  let ?b' = "testBadgerStore\<lparr>db := (db testBadgerStore)\<lparr>kv := [(addPrefix dbConf [0x68], [0x77, 0x6F])]\<rparr>\<rparr>"
  have s: "Set testBadgerStore [0x68] [0x77, 0x6F] = (?b', Ok ())"
    by (simp add: Set_def Commit_def txn_Set_def txn_Commit_def testBadgerStore_def)
  have "get_fails (db testBadgerStore) (addPrefix dbConf [0x68]) = None"
    "value_fails (db testBadgerStore) (addPrefix dbConf [0x68]) = None"
    by (simp_all add: testBadgerStore_def)
  from Set_Get_roundtrip [OF s _ this, of "[[0x01]]"]
  have "Get ?b' [[0x01]] [0x68] = ([[0x01], [0x77, 0x6F]], Ok 1)"
    and "\<forall>w. Get ?b' [[0x01], w] [0x68] = ([[0x01], w, [0x77, 0x6F]], Ok 2)"
    by simp_all
  with s show ?thesis by simp
qed

text \<open>
  The claim as the specification states it fails for the empty value: \<^verbatim>\<open>Set\<close> stores it
  and succeeds, and \<^verbatim>\<open>Get\<close> then returns \<^verbatim>\<open>ErrKeyNotFound\<close>.
\<close>

theorem Set_Get_empty_counterexample:
  "Set testBadgerStore [0x68] [] =
     (testBadgerStore\<lparr>db := (db testBadgerStore)\<lparr>kv := [(addPrefix dbConf [0x68], [])]\<rparr>\<rparr>, Ok ()) \<and>
   Get (testBadgerStore\<lparr>db := (db testBadgerStore)\<lparr>kv := [(addPrefix dbConf [0x68], [])]\<rparr>\<rparr>)
     [] [0x68] = ([], Err ErrKeyNotFound)"
  by (simp add: Set_def Commit_def txn_Set_def txn_Commit_def testBadgerStore_def
      Get_def txn_Get_def item_ValueCopy_def)

section \<open>GetUint64\<close>

lemma bytesToUint64_Panic_iff: "bytesToUint64 v = Panic \<longleftrightarrow> length v < 8"
  by (auto simp: bytesToUint64_def)

text \<open>
  C10. \<^verbatim>\<open>GetUint64\<close> decodes whatever \<^verbatim>\<open>Get\<close> returns. For a key written by
  \<^verbatim>\<open>Set(k, v)\<close> with a non-empty \<open>v\<close>, and while the engine's reads of the key succeed,
  \<^verbatim>\<open>GetUint64(k)\<close> is \<^verbatim>\<open>bytesToUint64\<close> of \<open>v\<close>: the decode panics exactly when \<open>v\<close>
  has fewer than 8 bytes, so the call ends in a panic and not in a returned error for a
  short value, and returns the number read from the first 8 bytes otherwise.
\<close>

theorem GetUint64_short_value:
  assumes "Set b k v = (b', Ok ())" and "v \<noteq> []"
    and "get_fails (db b) (addPrefix dbConf k) = None"
    and "value_fails (db b) (addPrefix dbConf k) = None"
  shows "GetUint64 b' h k = (h @ [v], bytesToUint64 v) \<and>
         (bytesToUint64 v = Panic \<longleftrightarrow> length v < 8) \<and>
         (length v < 8 \<longrightarrow> GetUint64 b' h k = (h @ [v], Panic)) \<and>
         (8 \<le> length v \<longrightarrow> GetUint64 b' h k = (h @ [v], Ok (BigEndian_Uint64 v)))"
proof -
  have "GetUint64 b' h k = (h @ [v], bytesToUint64 v)"
    using Get_after_Set [OF assms(1,3,4), of h] assms(2) by (simp add: GetUint64_def)
  then show ?thesis by (auto simp: bytesToUint64_def)
qed

theorem GetUint64_short_value_witness:
  "Set testBadgerStore [0x68] [0x77, 0x6F] =
     (testBadgerStore\<lparr>db := (db testBadgerStore)\<lparr>kv := [(addPrefix dbConf [0x68], [0x77, 0x6F])]\<rparr>\<rparr>, Ok ()) \<and>
   GetUint64 (testBadgerStore\<lparr>db := (db testBadgerStore)\<lparr>kv := [(addPrefix dbConf [0x68], [0x77, 0x6F])]\<rparr>\<rparr>)
     [] [0x68] = ([[0x77, 0x6F]], Panic)"
proof -
  let ?b' = "testBadgerStore\<lparr>db := (db testBadgerStore)\<lparr>kv := [(addPrefix dbConf [0x68], [0x77, 0x6F])]\<rparr>\<rparr>"
  have s: "Set testBadgerStore [0x68] [0x77, 0x6F] = (?b', Ok ())"
    by (simp add: Set_def Commit_def txn_Set_def txn_Commit_def testBadgerStore_def)
  have "get_fails (db testBadgerStore) (addPrefix dbConf [0x68]) = None"
    "value_fails (db testBadgerStore) (addPrefix dbConf [0x68]) = None"
    by (simp_all add: testBadgerStore_def)
  from GetUint64_short_value [OF s _ this, of "[]"] s show ?thesis by simp
qed

text \<open>The round trip of the spec: a number stored by \<^verbatim>\<open>SetUint64\<close> is read back.\<close>

lemma SetUint64_GetUint64:
  assumes "SetUint64 b k n = (b', Ok ())"
    and "get_fails (db b) (addPrefix dbConf k) = None"
    and "value_fails (db b) (addPrefix dbConf k) = None"
  shows "GetUint64 b' h k = (h @ [uint64ToBytes n], Ok n)"
proof -
  from assms(1) have s: "Set b k (uint64ToBytes n) = (b', Ok ())" by (simp add: SetUint64_def)
  have ne: "uint64ToBytes n \<noteq> []" by (simp add: uint64ToBytes_def)
  have "GetUint64 b' h k = (h @ [uint64ToBytes n], bytesToUint64 (uint64ToBytes n))"
    using Get_after_Set [OF s assms(2,3), of h] ne by (simp add: GetUint64_def)
  then show ?thesis
    by (simp add: bytesToUint64_def length_uint64ToBytes BigEndian_Uint64_uint64ToBytes)
qed

section \<open>Keys of the log namespace\<close>

lemma length8_cases:
  "length bs = 8 \<Longrightarrow> \<exists>b0 b1 b2 b3 b4 b5 b6 b7. bs = [b0, b1, b2, b3, b4, b5, b6, b7::byte]"
  by (simp add: numeral_eq_Suc length_Suc_conv) blast

lemma byte_of_BigEndian:
  fixes b0 :: byte
  shows "uint64ToBytes (BigEndian_Uint64 [b0, b1, b2, b3, b4, b5, b6, b7]) =
     [b0, b1, b2, b3, b4, b5, b6, b7]"
proof -
  define X where "X = BigEndian_Uint64 [b0, b1, b2, b3, b4, b5, b6, b7]"
  have bitX: "bit X n = (if n < 8 then bit b7 n else if n < 16 then bit b6 (n - 8)
      else if n < 24 then bit b5 (n - 16) else if n < 32 then bit b4 (n - 24)
      else if n < 40 then bit b3 (n - 32) else if n < 48 then bit b2 (n - 40)
      else if n < 56 then bit b1 (n - 48) else n < 64 \<and> bit b0 (n - 56))" for n
    unfolding X_def BigEndian_Uint64_def
    by (auto simp add: bit_simps dest: bit_imp_le_length)
  have "(ucast (drop_bit 56 X) :: byte) = b0" "(ucast (drop_bit 48 X) :: byte) = b1"
    "(ucast (drop_bit 40 X) :: byte) = b2" "(ucast (drop_bit 32 X) :: byte) = b3"
    "(ucast (drop_bit 24 X) :: byte) = b4" "(ucast (drop_bit 16 X) :: byte) = b5"
    "(ucast (drop_bit 8 X) :: byte) = b6" "(ucast X :: byte) = b7"
    by (rule bit_word_eqI; simp add: bit_simps bitX)+
  then show ?thesis
    unfolding X_def [symmetric] uint64ToBytes_def by simp
qed

lemma uint64ToBytes_BigEndian_Uint64:
  "length bs = 8 \<Longrightarrow> uint64ToBytes (BigEndian_Uint64 bs) = bs"
  using length8_cases [of bs] byte_of_BigEndian by auto

lemma prefix_logKey: "prefix dbLogs (logKey i)"
  by (simp add: addPrefix_def)

lemma length_logKey: "length (logKey i) = length dbLogs + 8"
  by (simp add: addPrefix_def length_uint64ToBytes)


lemma logKey_keyIndex:
  assumes "prefix dbLogs k" "length k = length dbLogs + 8"
  shows "logKey (keyIndex k) = k"
proof -
  from assms(1) obtain s where k: "k = dbLogs @ s" by (auto simp: prefix_def)
  with assms(2) have "length s = 8" by simp
  then show ?thesis
    by (simp add: k keyIndex_def addPrefix_def uint64ToBytes_BigEndian_Uint64)
qed

lemma bytesToUint64_log_key:
  assumes "prefix dbLogs k" "length k = length dbLogs + 8"
  shows "bytesToUint64 (drop (length dbLogs) k) = Ok (keyIndex k)"
  using assms by (simp add: bytesToUint64_def keyIndex_def)

lemma logKey_le: "logKey i \<le> logKey j \<longleftrightarrow> i \<le> j"
  by (simp add: addPrefix_def append_le_append uint64ToBytes_le)

lemma logKey_less: "logKey i < logKey j \<longleftrightarrow> i < j"
  by (simp add: addPrefix_def append_less_append uint64ToBytes_less)

lemma logKey_inj: "logKey i = logKey j \<longleftrightarrow> i = j"
  by (simp add: addPrefix_def uint64ToBytes_inj)

lemma prefix_imp_le: "prefix p a \<Longrightarrow> p \<le> a" for p :: "'a::linorder list"
  by (auto simp: prefix_def le_less less_append_iff)

lemma prefix_between:
  fixes p :: "'a::linorder list"
  shows "prefix p a \<Longrightarrow> p \<le> m \<Longrightarrow> m \<le> a \<Longrightarrow> prefix p m"
proof (induction p arbitrary: a m)
  case Nil
  show ?case by simp
next
  case (Cons x p)
  from Cons.prems(1) obtain a' where a: "a = x # a'" and pa: "prefix p a'"
    by (cases a) auto
  from Cons.prems(2) obtain y m' where m: "m = y # m'"
    by (cases m) auto
  from Cons.prems(2,3) have "y = x" "p \<le> m'" "m' \<le> a'"
    by (auto simp: a m)
  with Cons.IH [OF pa] show ?case by (simp add: m)
qed

section \<open>Iterators\<close>

lemma sorted_iter_keys: "sorted (iter_keys d)" "distinct (iter_keys d)"
  by (simp_all add: iter_keys_def)

lemma Seek_filter: "sorted ks \<Longrightarrow> Seek ks c = filter (\<lambda>k. c \<le> k) ks"
proof (induction ks)
  case Nil
  show ?case by (simp add: Seek_def)
next
  case (Cons k ks)
  show ?case
  proof (cases "k < c")
    case True
    with Cons show ?thesis by (simp add: Seek_def)
  next
    case False
    with Cons.prems have "\<forall>x\<in>set (k # ks). c \<le> x" by auto
    then have "filter (\<lambda>k. c \<le> k) (k # ks) = k # ks" by (simp only: filter_True)
    with False show ?thesis by (simp add: Seek_def)
  qed
qed

lemma Seek_Reverse_filter:
  "sorted ks \<Longrightarrow> Seek_Reverse ks c = filter (\<lambda>k. k \<le> c) (rev ks)"
proof (induction ks rule: rev_induct)
  case Nil
  show ?case by (simp add: Seek_Reverse_def)
next
  case (snoc k ks)
  from snoc.prems have s: "sorted ks" and le: "\<forall>x\<in>set ks. x \<le> k"
    by (auto simp: sorted_append)
  show ?case
  proof (cases "c < k")
    case True
    with snoc.IH [OF s] show ?thesis by (simp add: Seek_Reverse_def)
  next
    case False
    with le have "\<forall>x\<in>set (rev (ks @ [k])). x \<le> c" by auto
    then have "filter (\<lambda>k. k \<le> c) (rev (ks @ [k])) = rev (ks @ [k])" by (simp only: filter_True)
    with False show ?thesis by (simp add: Seek_Reverse_def)
  qed
qed

lemma ne_Nil_if_mem: "x \<in> set xs \<Longrightarrow> xs \<noteq> []"
  by auto

lemma sorted_hd_le: "sorted xs \<Longrightarrow> x \<in> set xs \<Longrightarrow> hd xs \<le> x"
  by (cases xs) auto

lemma sorted_rev_hd_ge: "sorted xs \<Longrightarrow> x \<in> set xs \<Longrightarrow> x \<le> hd (rev xs)"
  by (cases xs rule: rev_cases) (auto simp: sorted_append)

lemma ValidForPrefix_iff: "ValidForPrefix it p \<longleftrightarrow> it \<noteq> [] \<and> prefix p (hd it)"
  by (cases it) (simp_all add: ValidForPrefix_def)

section \<open>FirstIndex and LastIndex\<close>

lemma log_key_stored:
  assumes "log_keys_ok b" "k \<in> fst ` set (kv (db b))" "prefix dbLogs k"
  shows "k = logKey (keyIndex k)" "keyIndex k \<in> stored_indices b"
proof -
  from assms have len: "length k = length dbLogs + 8" by (auto simp: log_keys_ok_def)
  show k: "k = logKey (keyIndex k)" using logKey_keyIndex [OF assms(3) len] by simp
  from assms(2) k show "keyIndex k \<in> stored_indices b" by (simp add: stored_indices_def)
qed

text \<open>
  \<^verbatim>\<open>FirstIndex\<close> is right on the whole domain: it returns the least stored index, and 0 for
  an empty log.
\<close>

lemma FirstIndex_min:
  assumes ok: "log_keys_ok b"
  shows "FirstIndex b =
     Ok (if stored_indices b = {} then 0 else Min (stored_indices b))"
proof -
  let ?ks = "iter_keys (db b)"
  let ?it = "filter (\<lambda>k. dbLogs \<le> k) ?ks"
  have sit: "sorted ?it" by (simp add: sorted_wrt_filter sorted_iter_keys)
  have F: "FirstIndex b = (if ?it \<noteq> [] \<and> prefix dbLogs (hd ?it)
      then bytesToUint64 (drop (length dbLogs) (hd ?it)) else Ok 0)"
    by (simp add: FirstIndex_def Seek_filter sorted_iter_keys ValidForPrefix_iff Let_def)
  have in_it: "logKey i \<in> set ?it" if "i \<in> stored_indices b" for i
    using that prefix_imp_le [OF prefix_logKey [of i]]
    by (simp add: stored_indices_def set_iter_keys)
  show ?thesis
  proof (cases "?it \<noteq> [] \<and> prefix dbLogs (hd ?it)")
    case True
    let ?m = "hd ?it"
    from True have "?it \<noteq> []" by simp
    then have "?m \<in> set ?it" by (rule hd_in_set)
    then have mk: "?m \<in> fst ` set (kv (db b))" by (simp add: set_iter_keys)
    from True have pm: "prefix dbLogs ?m" by simp
    note m = log_key_stored [OF ok mk pm]
    from ok mk pm have len: "length ?m = length dbLogs + 8" by (auto simp: log_keys_ok_def)
    have least: "keyIndex ?m \<le> i" if "i \<in> stored_indices b" for i
    proof -
      from sorted_hd_le [OF sit in_it [OF that]] have "?m \<le> logKey i" .
      then have "logKey (keyIndex ?m) \<le> logKey i" using m(1) by simp
      then show ?thesis by (simp only: logKey_le)
    qed
    have "Min (stored_indices b) = keyIndex ?m"
      by (rule Min_eqI) (use m(2) least in auto)
    moreover from m(2) have "stored_indices b \<noteq> {}" by auto
    ultimately show ?thesis
      using True F bytesToUint64_log_key [OF pm len] by simp
  next
    case False
    have "stored_indices b = {}"
    proof (rule ccontr)
      assume "stored_indices b \<noteq> {}"
      then obtain i where i: "i \<in> stored_indices b" by auto
      from in_it [OF i] have ne: "?it \<noteq> []" by (rule ne_Nil_if_mem)
      from sorted_hd_le [OF sit in_it [OF i]] have le: "hd ?it \<le> logKey i" .
      from ne have "hd ?it \<in> set ?it" by (rule hd_in_set)
      then have "dbLogs \<le> hd ?it" by simp
      from prefix_between [OF prefix_logKey this le] ne False show False by simp
    qed
    moreover from False have "FirstIndex b = Ok 0" unfolding F by (rule if_not_P)
    ultimately show ?thesis by simp
  qed
qed

lemma logKey_le_End: "logKey i \<le> End dbLogs \<longleftrightarrow> i < 0xFF00000000000000"
proof -
  have e: "uint64ToBytes 0xFF00000000000000 = [0xFF, 0, 0, 0, 0, 0, 0, 0]"
    by (simp add: uint64ToBytes_def)
  have z: "\<not> x < (0::byte)" for x
    by (simp add: word_less_nat_alt)
  obtain b0 bs where u: "uint64ToBytes i = b0 # bs" "length bs = 7"
    by (simp add: uint64ToBytes_def)
  then obtain b1 b2 b3 b4 b5 b6 b7 where bs: "bs = [b1, b2, b3, b4, b5, b6, b7]"
    by (auto simp: numeral_eq_Suc length_Suc_conv)
  have "i < 0xFF00000000000000 \<longleftrightarrow> uint64ToBytes i < uint64ToBytes 0xFF00000000000000"
    by (simp only: uint64ToBytes_less)
  also have "\<dots> \<longleftrightarrow> b0 < 0xFF"
    unfolding e u bs by (simp add: z)
  also have "\<dots> \<longleftrightarrow> uint64ToBytes i \<le> [0xFF]"
    unfolding u bs by simp
  finally show ?thesis
    by (simp add: End_eq addPrefix_def append_le_append)
qed

text \<open>
  \<^verbatim>\<open>LastIndex\<close> seeks to \<open>End dbLogs\<close>, and a key of the namespace is at or below that
  bound exactly when its index is below \<^verbatim>\<open>0xFF00000000000000\<close>. So \<^verbatim>\<open>LastIndex\<close> returns
  the greatest stored index below \<^verbatim>\<open>0xFF00000000000000\<close>, and 0 when there is none: it is
  the maximum of the stored indices when all of them are below that number.
\<close>

lemma LastIndex_exact:
  assumes ok: "log_keys_ok b"
  shows "LastIndex b =
     Ok (if {i \<in> stored_indices b. i < 0xFF00000000000000} = {} then 0
         else Max {i \<in> stored_indices b. i < 0xFF00000000000000})"
proof -
  let ?S = "{i \<in> stored_indices b. i < 0xFF00000000000000}"
  let ?ks = "iter_keys (db b)"
  let ?E = "End dbLogs"
  let ?it = "filter (\<lambda>k. k \<le> ?E) (rev ?ks)"
  have rit: "rev ?it = filter (\<lambda>k. k \<le> ?E) ?ks" by (simp add: rev_filter)
  have sit: "sorted (rev ?it)" unfolding rit by (simp add: sorted_wrt_filter sorted_iter_keys)
  have ge: "x \<le> hd ?it" if "x \<in> set ?it" for x
    using sorted_rev_hd_ge [OF sit, of x] that by simp
  have L: "LastIndex b = (if ?it \<noteq> [] \<and> prefix dbLogs (hd ?it)
      then bytesToUint64 (drop (length dbLogs) (hd ?it)) else Ok 0)"
    by (simp add: LastIndex_def Seek_Reverse_filter sorted_iter_keys ValidForPrefix_iff Let_def)
  have in_it: "logKey i \<in> set ?it" if "i \<in> ?S" for i
    using that by (simp add: stored_indices_def set_iter_keys logKey_le_End)
  have pE: "prefix dbLogs ?E" by (simp add: End_eq)
  show ?thesis
  proof (cases "?it \<noteq> [] \<and> prefix dbLogs (hd ?it)")
    case True
    let ?m = "hd ?it"
    from True have "?it \<noteq> []" by simp
    then have mit: "?m \<in> set ?it" by (rule hd_in_set)
    then have mk: "?m \<in> fst ` set (kv (db b))" and mE: "?m \<le> ?E"
      by (simp_all add: set_iter_keys)
    from True have pm: "prefix dbLogs ?m" by simp
    note m = log_key_stored [OF ok mk pm]
    from ok mk pm have len: "length ?m = length dbLogs + 8" by (auto simp: log_keys_ok_def)
    from mE m(1) have "logKey (keyIndex ?m) \<le> ?E" by simp
    then have lt: "keyIndex ?m < 0xFF00000000000000" by (simp only: logKey_le_End)
    with m(2) have mS: "keyIndex ?m \<in> ?S" by simp
    have greatest: "i \<le> keyIndex ?m" if "i \<in> ?S" for i
    proof -
      from ge [OF in_it [OF that]] have "logKey i \<le> ?m" .
      then have "logKey i \<le> logKey (keyIndex ?m)" using m(1) by simp
      then show ?thesis by (simp only: logKey_le)
    qed
    have mx: "Max ?S = keyIndex ?m"
      by (rule Max_eqI) (use mS greatest in auto)
    from mS have ne: "?S \<noteq> {}" by blast
    from True have "LastIndex b = bytesToUint64 (drop (length dbLogs) ?m)"
      unfolding L by (rule if_P)
    also have "\<dots> = Ok (keyIndex ?m)" by (rule bytesToUint64_log_key [OF pm len])
    also have "\<dots> = Ok (Max ?S)" by (simp only: mx)
    also have "Max ?S = (if ?S = {} then 0 else Max ?S)"
      using ne by (rule if_not_P [symmetric])
    finally show ?thesis .
  next
    case False
    have "?S = {}"
    proof (rule ccontr)
      assume "?S \<noteq> {}"
      then obtain i where i: "i \<in> ?S" by blast
      from in_it [OF i] have ne: "?it \<noteq> []" by (rule ne_Nil_if_mem)
      then have hit: "hd ?it \<in> set ?it" by (rule hd_in_set)
      then have hE: "hd ?it \<le> ?E" by simp
      from ge [OF in_it [OF i]] have "logKey i \<le> hd ?it" .
      with prefix_imp_le [OF prefix_logKey [of i]] have "dbLogs \<le> hd ?it" by simp
      from prefix_between [OF pE this hE] ne False show False by simp
    qed
    then have "(if ?S = {} then 0 else Max ?S) = 0" by (rule if_P)
    moreover from False have "LastIndex b = Ok 0" unfolding L by (rule if_not_P)
    ultimately show ?thesis by (simp only:)
  qed
qed

lemma LastIndex_max:
  assumes "log_keys_ok b" "\<forall>i\<in>stored_indices b. i < 0xFF00000000000000"
  shows "LastIndex b = Ok (if stored_indices b = {} then 0 else Max (stored_indices b))"
proof -
  from assms(2) have "{i \<in> stored_indices b. i < 0xFF00000000000000} = stored_indices b"
    by blast
  with LastIndex_exact [OF assms(1)] show ?thesis by simp
qed

lemma test_high_eq:
  "StoreLogs test_codec testBadgerStore
     [testRaftLog 1 [0x61], testRaftLog 0xFF00000000000000 [0x62]] =
   (testBadgerStore\<lparr>db := (db testBadgerStore)\<lparr>kv :=
        [(logKey 1, uint64ToBytes 1 @ [0x61]),
         (logKey 0xFF00000000000000, uint64ToBytes 0xFF00000000000000 @ [0x62])]\<rparr>\<rparr>, Ok ())"
  by (simp add: StoreLogs_def Commit_def txn_Commit_def txn_Set_def EncodeMsgPack_def
      test_codec_def testBadgerStore_def testRaftLog_def addPrefix_def dbLogs_def uint64ToBytes_def)

text \<open>
  C2, at the input where the code departs from it. After \<^verbatim>\<open>StoreLogs\<close> stored records at
  the indices 1 and \<^verbatim>\<open>0xFF00000000000000\<close>, both are there (\<^verbatim>\<open>GetLog\<close> returns the second),
  \<^verbatim>\<open>FirstIndex\<close> returns the minimum 1, and \<^verbatim>\<open>LastIndex\<close> returns 1 as well, not the
  maximum \<^verbatim>\<open>0xFF00000000000000\<close>.
\<close>

theorem LastIndex_misses_high_index:
  "snd (StoreLogs test_codec testBadgerStore
     [testRaftLog 1 [0x61], testRaftLog 0xFF00000000000000 [0x62]]) = Ok () \<and>
   GetLog test_codec test_high 0xFF00000000000000 = Ok (testRaftLog 0xFF00000000000000 [0x62]) \<and>
   FirstIndex test_high = Ok 1 \<and>
   LastIndex test_high = Ok 1"
proof -
  have b: "test_high = testBadgerStore\<lparr>db := (db testBadgerStore)\<lparr>kv :=
        [(logKey 1, uint64ToBytes 1 @ [0x61]),
         (logKey 0xFF00000000000000, uint64ToBytes 0xFF00000000000000 @ [0x62])]\<rparr>\<rparr>"
    by (simp add: test_high_def test_high_eq)
  have "GetLog test_codec test_high 0xFF00000000000000 = Ok (testRaftLog 0xFF00000000000000 [0x62])"
    by (simp add: b GetLog_def txn_Get_def item_ValueCopy_def DecodeMsgPack_def test_codec_def
        testBadgerStore_def addPrefix_def dbLogs_def uint64ToBytes_def BigEndian_Uint64_def)
  moreover have "FirstIndex test_high = Ok 1"
    by (simp add: b FirstIndex_def iter_keys_def Seek_def ValidForPrefix_def bytesToUint64_def
        testBadgerStore_def addPrefix_def dbLogs_def uint64ToBytes_def BigEndian_Uint64_def)
  moreover have "LastIndex test_high = Ok 1"
    by (simp add: b LastIndex_def iter_keys_def Seek_Reverse_def ValidForPrefix_def End_eq
        bytesToUint64_def testBadgerStore_def addPrefix_def dbLogs_def uint64ToBytes_def
        BigEndian_Uint64_def)
  ultimately show ?thesis by (simp add: test_high_eq)
qed

lemma empty_store_indices:
  "log_keys_ok testBadgerStore" "stored_indices testBadgerStore = {}"
  "FirstIndex testBadgerStore = Ok 0" "LastIndex testBadgerStore = Ok 0"
  by (simp_all add: log_keys_ok_def stored_indices_def testBadgerStore_def FirstIndex_def
      LastIndex_def iter_keys_def Seek_def Seek_Reverse_def ValidForPrefix_def)

section \<open>DeleteRange\<close>



lemma keys_fold_Del: "fst ` set (fold apply_op (map Del ds) al) \<subseteq> fst ` set al"
proof (induction ds arbitrary: al)
  case Nil
  show ?case by simp
next
  case (Cons k ds)
  have "fst ` set (fold apply_op (map Del ds) (AList.delete k al)) \<subseteq> fst ` set (AList.delete k al)"
    by (rule Cons.IH)
  also have "\<dots> \<subseteq> fst ` set al" by (rule dom_delete_subset)
  finally show ?case by simp
qed





lemma log_keys_ok_subset:
  assumes "log_keys_ok b" "fst ` set (kv d) \<subseteq> fst ` set (kv (db b))"
  shows "log_keys_ok (b\<lparr>db := d\<rparr>)"
  unfolding log_keys_ok_def
proof (intro ballI impI)
  fix k assume "k \<in> fst ` set (kv (db (b\<lparr>db := d\<rparr>)))" and p: "prefix dbLogs k"
  with assms(2) have "k \<in> fst ` set (kv (db b))" by auto
  with assms(1) p show "length k = length dbLogs + 8" unfolding log_keys_ok_def by blast
qed

lemma txn_Commit_Ok:
  "txn_Commit d pend = Ok d' \<Longrightarrow> d' = d\<lparr>kv := fold apply_op pend (kv d)\<rparr>"
  by (auto simp: txn_Commit_def split: option.splits)


text \<open>
  The keys of the log namespace are well formed in every store that the operations can
  reach: the new store has no key, \<^verbatim>\<open>StoreLogs\<close> writes keys of 12 bytes, \<^verbatim>\<open>Set\<close> writes
  outside the namespace, and \<^verbatim>\<open>DeleteRange\<close> writes no key, whatever they return.
\<close>

lemma keys_fold_Put:
  "fst ` set (fold apply_op (map (\<lambda>l. Put (f l) (g l)) ls) al) \<subseteq> fst ` set al \<union> f ` set ls"
proof (induction ls arbitrary: al)
  case Nil
  show ?case by simp
next
  case (Cons l ls)
  have "fst ` set (fold apply_op (map (\<lambda>l. Put (f l) (g l)) ls) (AList.update (f l) (g l) al))
      \<subseteq> fst ` set (AList.update (f l) (g l) al) \<union> f ` set ls"
    by (rule Cons.IH)
  also have "fst ` set (AList.update (f l) (g l) al) = insert (f l) (fst ` set al)"
    by (simp add: dom_update)
  finally show ?case by auto
qed

lemma log_keys_ok_testBadgerStore: "log_keys_ok testBadgerStore"
  by (simp add: log_keys_ok_def testBadgerStore_def)

lemma log_keys_ok_StoreLogs:
  assumes "log_keys_ok b"
  shows "log_keys_ok (fst (StoreLogs c b logs))"
proof (cases "StoreLogs_loop c b [] logs")
  case (Ok pend)
  from StoreLogs_loop_Ok [OF Ok] have pend: "pend = log_puts c b logs" by simp
  show ?thesis
  proof (cases "commit_fails (db b) pend")
    case None
    then have eq: "fst (StoreLogs c b logs) = b\<lparr>db := (db b)\<lparr>kv := fold apply_op pend (kv (db b))\<rparr>\<rparr>"
      by (simp add: StoreLogs_def Ok Commit_def txn_Commit_def)
    have sub: "fst ` set (fold apply_op pend (kv (db b)))
        \<subseteq> fst ` set (kv (db b)) \<union> (\<lambda>l. logKey (Index l)) ` set logs"
      unfolding pend log_puts_def by (rule keys_fold_Put)
    show ?thesis
      unfolding eq log_keys_ok_def
    proof (intro ballI impI)
      fix k
      assume k: "k \<in> fst ` set (kv (db (b\<lparr>db := (db b)\<lparr>kv := fold apply_op pend (kv (db b))\<rparr>\<rparr>)))"
        and p: "prefix dbLogs k"
      from k have "k \<in> fst ` set (fold apply_op pend (kv (db b)))" by simp
      with sub have "k \<in> fst ` set (kv (db b)) \<union> (\<lambda>l. logKey (Index l)) ` set logs" by (rule subsetD)
      then have "k \<in> fst ` set (kv (db b)) \<or> (\<exists>i. k = logKey i)" by auto
      then show "length k = length dbLogs + 8"
      proof
        assume "k \<in> fst ` set (kv (db b))"
        with assms p show ?thesis unfolding log_keys_ok_def by blast
      next
        assume "\<exists>i. k = logKey i"
        then show ?thesis by (auto simp: length_logKey)
      qed
    qed
  next
    case (Some e)
    then have "fst (StoreLogs c b logs) = b"
      by (simp add: StoreLogs_def Ok Commit_def txn_Commit_def)
    with assms show ?thesis by simp
  qed
next
  case (Err e)
  then have "fst (StoreLogs c b logs) = b" by (simp add: StoreLogs_def)
  with assms show ?thesis by simp
next
  case Panic
  then have "fst (StoreLogs c b logs) = b" by (simp add: StoreLogs_def)
  with assms show ?thesis by simp
qed

lemma not_prefix_dbLogs_dbConf: "\<not> prefix dbLogs (addPrefix dbConf k)"
  by (simp add: dbLogs_def dbConf_def addPrefix_def)

lemma log_keys_ok_Set:
  assumes "log_keys_ok b"
  shows "log_keys_ok (fst (Set b k v))"
proof -
  obtain b' r where s: "Set b k v = (b', r)" by (cases "Set b k v")
  from Set_cases [OF s] show ?thesis
  proof
    assume a: "r = Ok () \<and> b' = b\<lparr>db := (db b)\<lparr>kv := AList.update (addPrefix dbConf k) v (kv (db b))\<rparr>\<rparr>"
    have d: "fst ` set (AList.update (addPrefix dbConf k) v (kv (db b)))
        = insert (addPrefix dbConf k) (fst ` set (kv (db b)))"
      by (simp add: dom_update)
    show ?thesis
      unfolding s fst_conv log_keys_ok_def
    proof (intro ballI impI)
      fix x assume x: "x \<in> fst ` set (kv (db b'))" and p: "prefix dbLogs x"
      from x a d have "x = addPrefix dbConf k \<or> x \<in> fst ` set (kv (db b))" by simp
      with p not_prefix_dbLogs_dbConf have "x \<in> fst ` set (kv (db b))" by auto
      with assms p show "length x = length dbLogs + 8" unfolding log_keys_ok_def by blast
    qed
  next
    assume "(\<exists>e. r = Err e) \<and> b' = b"
    with assms s show ?thesis by simp
  qed
qed

lemma log_keys_ok_DeleteRange_loop:
  assumes "log_keys_ok b"
  shows "log_keys_ok (fst (DeleteRange_loop b bs mx c))"
  using assms
proof (induction b bs mx c rule: DeleteRange_loop.induct)
  case (1 b bs mx c)
  show ?case
  proof (cases "DeleteRange_batch (db b) bs mx (Seek (iter_keys (db b)) c) 0 [] []")
    case (Ok r)
    obtain count lastKey pend where r: "r = (count, lastKey, pend)" by (cases r)
    note batch = Ok [unfolded r]
    show ?thesis
    proof (cases "count = 0")
      case True
      with batch "1.prems" show ?thesis by (subst DeleteRange_loop.simps) simp
    next
      case False
      show ?thesis
      proof (cases "txn_Commit (db b) pend")
        case (Ok d)
        from DeleteRange_batch_pend [OF batch] obtain ks where ks: "pend = map Del ks" by auto
        from txn_Commit_Ok [OF Ok] have "kv d = fold apply_op (map Del ks) (kv (db b))"
          by (simp add: ks)
        then have "fst ` set (kv d) \<subseteq> fst ` set (kv (db b))" by (simp add: keys_fold_Del)
        from log_keys_ok_subset [OF "1.prems" this]
        have ok': "log_keys_ok (b\<lparr>db := d\<rparr>)" .
        have "log_keys_ok (fst (DeleteRange_loop (b\<lparr>db := d\<rparr>) bs mx (lastKey @ [0])))"
          using "1.IH" [OF batch refl refl False Ok ok'] .
        with batch False Ok show ?thesis by (subst DeleteRange_loop.simps) simp
      next
        case (Err e)
        with batch False "1.prems" show ?thesis by (subst DeleteRange_loop.simps) simp
      next
        case Panic
        with batch False "1.prems" show ?thesis by (subst DeleteRange_loop.simps) simp
      qed
    qed
  next
    case (Err e)
    with "1.prems" show ?thesis by (subst DeleteRange_loop.simps) simp
  next
    case Panic
    with "1.prems" show ?thesis by (subst DeleteRange_loop.simps) simp
  qed
qed

lemma log_keys_ok_DeleteRange: "log_keys_ok b \<Longrightarrow> log_keys_ok (fst (DeleteRange b mn mx))"
  unfolding DeleteRange_def by (rule log_keys_ok_DeleteRange_loop)

text \<open>
  On an engine whose deletions and commits never fail, \<^verbatim>\<open>DeleteRange\<close> returns \<^verbatim>\<open>nil\<close>: it
  does not panic on a key of the namespace, and it ends.
\<close>

lemma DeleteRange_batch_succeeds:
  assumes "\<forall>k\<in>set it. prefix dbLogs k \<longrightarrow> length k = length dbLogs + 8"
    and "\<forall>p k. delete_fails d p k = None"
  shows "\<exists>r. DeleteRange_batch d bs mx it n l pend = Ok r"
  using assms(1)
proof (induction it arbitrary: n l pend)
  case Nil
  show ?case by simp
next
  case (Cons k it)
  show ?case
  proof (cases "prefix dbLogs k")
    case False
    then show ?thesis by simp
  next
    case True
    with Cons.prems have "length k = length dbLogs + 8" by simp
    then have dec: "bytesToUint64 (drop (length dbLogs) k) = Ok (keyIndex k)"
      by (simp add: bytesToUint64_def keyIndex_def)
    have del: "txn_Delete d pend k = Ok (pend @ [Del k])"
      using assms(2) by (simp add: txn_Delete_def)
    from Cons.prems have "\<forall>k\<in>set it. prefix dbLogs k \<longrightarrow> length k = length dbLogs + 8" by simp
    from Cons.IH [OF this] obtain r where
      "DeleteRange_batch d bs mx it (n + 1) k (pend @ [Del k]) = Ok r" by blast
    with True dec del show ?thesis by (cases r) auto
  qed
qed

lemma DeleteRange_loop_succeeds:
  assumes "log_keys_ok b"
    and "\<forall>p k. delete_fails (db b) p k = None"
    and "\<forall>p. commit_fails (db b) p = None"
  shows "snd (DeleteRange_loop b bs mx c) = Ok ()"
  using assms
proof (induction b bs mx c rule: DeleteRange_loop.induct)
  case (1 b bs mx c)
  have "\<forall>k\<in>set (Seek (iter_keys (db b)) c). prefix dbLogs k \<longrightarrow> length k = length dbLogs + 8"
    using "1.prems"(1) set_Seek_subset [of "iter_keys (db b)" c]
    by (auto simp: log_keys_ok_def set_iter_keys)
  from DeleteRange_batch_succeeds [OF this "1.prems"(2)]
  obtain count lastKey pend where
    batch: "DeleteRange_batch (db b) bs mx (Seek (iter_keys (db b)) c) 0 [] [] =
      Ok (count, lastKey, pend)"
    by (metis prod_cases3)
  show ?case
  proof (cases "count = 0")
    case True
    with batch show ?thesis by (subst DeleteRange_loop.simps) simp
  next
    case False
    define d where "d = (db b)\<lparr>kv := fold apply_op pend (kv (db b))\<rparr>"
    have commit: "txn_Commit (db b) pend = Ok d"
      using "1.prems"(3) by (simp add: txn_Commit_def d_def)
    from DeleteRange_batch_pend [OF batch] obtain ks where ks: "pend = map Del ks" by auto
    have "fst ` set (kv d) \<subseteq> fst ` set (kv (db b))" by (simp add: d_def ks keys_fold_Del)
    from log_keys_ok_subset [OF "1.prems"(1) this]
    have ok': "log_keys_ok (b\<lparr>db := d\<rparr>)" .
    have f: "\<forall>p k. delete_fails (db (b\<lparr>db := d\<rparr>)) p k = None"
      "\<forall>p. commit_fails (db (b\<lparr>db := d\<rparr>)) p = None"
      using "1.prems"(2,3) by (simp_all add: d_def)
    have "snd (DeleteRange_loop (b\<lparr>db := d\<rparr>) bs mx (lastKey @ [0])) = Ok ()"
      using "1.IH" [OF batch refl refl False commit ok' f] .
    with batch False commit show ?thesis by (subst DeleteRange_loop.simps) simp
  qed
qed

lemma DeleteRange_succeeds:
  assumes "log_keys_ok b"
    and "\<forall>p k. delete_fails (db b) p k = None"
    and "\<forall>p. commit_fails (db b) p = None"
  shows "snd (DeleteRange b mn mx) = Ok ()"
  unfolding DeleteRange_def using assms by (rule DeleteRange_loop_succeeds)





lemma test_five_eq:
  "kv (db test_five) =
     [(logKey 1, uint64ToBytes 1 @ [0x61]), (logKey 2, uint64ToBytes 2 @ [0x62]),
      (logKey 3, uint64ToBytes 3 @ [0x63]), (logKey 4, uint64ToBytes 4 @ [0x64]),
      (logKey 5, uint64ToBytes 5 @ [0x65]), (addPrefix dbConf [0x68], [0x77])]"
  "get_fails (db test_five) = (\<lambda>_. None)" "value_fails (db test_five) = (\<lambda>_. None)"
  by (simp_all add: test_five_def Set_def StoreLogs_def Commit_def txn_Commit_def txn_Set_def
      EncodeMsgPack_def test_codec_def testBadgerStore_def testRaftLog_def addPrefix_def
      dbLogs_def dbConf_def uint64ToBytes_def)

lemma log_keys_ok_test_five: "log_keys_ok test_five"
  by (simp add: log_keys_ok_def test_five_eq addPrefix_def dbLogs_def dbConf_def uint64ToBytes_def)



text \<open>With \<open>mx < mn\<close> the first batch finds nothing to delete, whatever the batch size.\<close>

lemma DeleteRange_loop_inverted:
  assumes ok: "log_keys_ok b" and inv: "mx < mn"
  shows "DeleteRange_loop b bs mx (logKey mn) = (b, Ok ())"
proof -
  let ?K = "fst ` set (kv (db b))"
  let ?it = "Seek (iter_keys (db b)) (logKey mn)"
  have set_it: "set ?it = {k \<in> ?K. logKey mn \<le> k}"
    by (auto simp: Seek_filter sorted_iter_keys set_iter_keys)
  have "\<exists>l. DeleteRange_batch (db b) bs mx ?it 0 [] [] = Ok (0, l, [])"
  proof (cases ?it)
    case Nil
    then show ?thesis by simp
  next
    case (Cons k it')
    then have "k \<in> set ?it" by simp
    then have kK: "k \<in> ?K" and le: "logKey mn \<le> k" by (simp_all add: set_it)
    show ?thesis
    proof (cases "prefix dbLogs k")
      case False
      with Cons show ?thesis by simp
    next
      case True
      from ok kK True have len: "length k = length dbLogs + 8" by (auto simp: log_keys_ok_def)
      from log_key_stored(1) [OF ok kK True] le have "logKey mn \<le> logKey (keyIndex k)" by simp
      then have "mn \<le> keyIndex k" by (simp only: logKey_le)
      with inv have "mx < keyIndex k" by simp
      with Cons True bytesToUint64_log_key [OF True len] show ?thesis by simp
    qed
  qed
  then show ?thesis by (subst DeleteRange_loop.simps) auto
qed

text \<open>
  C9. An inverted range: for every store whose log keys are well formed and every pair of
  bounds with \<open>mx < mn\<close>, \<^verbatim>\<open>DeleteRange(mn, mx)\<close> returns success and the store, log records
  and stable entries alike, is exactly as before.
\<close>

theorem DeleteRange_inverted:
  assumes "log_keys_ok b" and "mx < mn"
  shows "DeleteRange b mn mx = (b, Ok ())"
  unfolding DeleteRange_def by (rule DeleteRange_loop_inverted [OF assms])

theorem DeleteRange_inverted_witness:
  "log_keys_ok test_five \<and> (2::u64) < 4 \<and> DeleteRange test_five 4 2 = (test_five, Ok ())"
  using DeleteRange_inverted [OF log_keys_ok_test_five, of 2 4] log_keys_ok_test_five by simp

end
